theory Spec2Isabelle
  imports Main "HOL-Library.Sublist"
begin

section \<open>The application orchestrator: App.ts and HandleRequest.ts\<close>

text \<open>
  The development embeds the two classes of \<^verbatim>\<open>src/unnamed/part_000\<close>: \<^verbatim>\<open>App\<close>
  (lines 1-205) and \<^verbatim>\<open>HandleRequest\<close> (lines 206-250). Promises are modelled by their
  settled result: an asynchronous function returns normally or throws. Code that the two
  classes call but that is not part of them (plugin hooks, stage handlers, the platform
  adapters, the localization object, the transport) is passed in as an environment of
  functions; every call the orchestrator makes to it is recorded in an event list
  (\<open>CallCreateJovoInstance p b\<close>: the factory of adapter \<open>p\<close> is called with a request
  whose bound platform is \<open>b\<close>).
\<close>

subsection \<open>Values that cross the boundary\<close>

type_synonym request = string

datatype response = Response string

datatype error = MatchingPlatformNotFoundError request | Thrown string

datatype outcome = Returned | Threw error

type_synonym hid = nat

datatype event =
    CallI18nInitialize
  | CallPluginInitialize string
  | CallMount string
  | CallDismount string
  | CallIsRequestRelated string
  | CallCreateJovoInstance string "string option"
  | CallHandler string hid
  | CallSetResponse response
  | CallErrorCallback error

subsection \<open>The stage catalog (App.ts, lines 28-44)\<close>

definition APP_MIDDLEWARES :: "string list" where
  "APP_MIDDLEWARES =
     [''request.start'',
      ''request'',
      ''request.end'',
      ''interpretation.start'',
      ''interpretation.asr'',
      ''interpretation.nlu'',
      ''interpretation.end'',
      ''dialogue.start'',
      ''dialogue.router'',
      ''dialogue.logic'',
      ''dialogue.end'',
      ''response.start'',
      ''response.output'',
      ''response.tts'',
      ''response.end'']"

subsection \<open>Configuration values and lodash.merge\<close>

text \<open>
  A configuration is a JavaScript object. Its values are the primitives, functions, and
  objects of three kinds: plain objects, arrays (whose properties are the indices
  \<open>''0''\<close>, \<open>''1''\<close>, ...) and instances of a class. An object is the list of its own
  enumerable properties in enumeration order. Numbers are integers here; typed arrays,
  buffers and \<^verbatim>\<open>arguments\<close> objects are not among the values.
\<close>

datatype kind = Plain | Array | Instance string

datatype jv =
    JUndefined
  | JNull
  | JBool bool
  | JNum int
  | JStr string
  | JFunction string
  | JObject kind "(string \<times> jv) list"

type_synonym props = "(string \<times> jv) list"

definition get_prop :: "props \<Rightarrow> string \<Rightarrow> jv" where
  "get_prop object key = (case map_of object key of None \<Rightarrow> JUndefined | Some v \<Rightarrow> v)"

definition has_prop :: "props \<Rightarrow> string \<Rightarrow> bool" where
  "has_prop object key = (key \<in> set (map fst object))"

fun set_prop :: "props \<Rightarrow> string \<Rightarrow> jv \<Rightarrow> props" where
  "set_prop [] key v = [(key, v)]"
| "set_prop ((k, w) # object) key v =
     (if k = key then (k, v) # object else (k, w) # set_prop object key v)"

definition props_of :: "jv \<Rightarrow> props" where
  "props_of v = (case v of JObject k ps \<Rightarrow> ps | _ \<Rightarrow> [])"

fun isObject :: "jv \<Rightarrow> bool" where
  "isObject (JObject k ps) = True"
| "isObject (JFunction f) = True"
| "isObject v = False"

fun truthy :: "jv \<Rightarrow> bool" where
  "truthy JUndefined = False"
| "truthy JNull = False"
| "truthy (JBool b) = b"
| "truthy (JNum n) = (n \<noteq> 0)"
| "truthy (JStr s) = (s \<noteq> [])"
| "truthy v = True"

text \<open>
  \<^verbatim>\<open>lodash.merge\<close> (imported at line 1 and at line 207) is a third-party library and
  not part of the repository. It is embedded here after the library's documented
  behaviour: source properties that resolve to \<^verbatim>\<open>undefined\<close> are skipped if a destination
  value exists; array and plain object properties are merged recursively; other objects and
  value types are overridden by assignment. The functions carry the names of the library's
  own: \<open>baseMerge\<close> walks the properties of the source, \<open>baseMergeDeep\<close> merges one
  property whose source value is an object, \<open>assignMergeValue\<close> stores a value unless it
  is \<^verbatim>\<open>undefined\<close> and the key exists. A destination that is array-like without being
  an array (an object with a numeric \<^verbatim>\<open>length\<close>) is copied into a new array by
  \<open>copyArray\<close> before an array is merged into it.
\<close>

fun digits :: "nat \<Rightarrow> string" where
  "digits n =
     (if n < 10 then [char_of (48 + n)] else digits (n div 10) @ [char_of (48 + n mod 10)])"

declare digits.simps [simp del]

definition isLength :: "jv \<Rightarrow> bool" where
  "isLength v = (case v of JNum n \<Rightarrow> 0 \<le> n \<and> n \<le> 9007199254740991 | _ \<Rightarrow> False)"

definition isArrayLikeObject :: "jv \<Rightarrow> bool" where
  "isArrayLikeObject v =
     (case v of JObject k ps \<Rightarrow> k = Array \<or> isLength (get_prop ps ''length'') | _ \<Rightarrow> False)"

definition copyArray :: "props \<Rightarrow> props" where
  "copyArray ps =
     (case get_prop ps ''length'' of
        JNum n \<Rightarrow> map (\<lambda>i. (digits i, get_prop ps (digits i))) [0..<nat n]
      | _ \<Rightarrow> [])"

definition assignMergeValue :: "props \<Rightarrow> string \<Rightarrow> jv \<Rightarrow> props" where
  "assignMergeValue object key v =
     (if (v \<noteq> JUndefined \<and> get_prop object key \<noteq> v) \<or> (v = JUndefined \<and> \<not> has_prop object key)
      then set_prop object key v else object)"

fun baseMerge :: "props \<Rightarrow> props \<Rightarrow> props"
  and baseMergeDeep :: "props \<Rightarrow> string \<Rightarrow> jv \<Rightarrow> props"
where
  "baseMerge object [] = object"
| "baseMerge object ((key, srcValue) # source) =
     baseMerge
       (if isObject srcValue then baseMergeDeep object key srcValue
        else assignMergeValue object key srcValue)
       source"
| "baseMergeDeep object key (JObject Array src) =
     assignMergeValue object key
       (JObject Array
          (baseMerge
             (case get_prop object key of
                JObject Array ps \<Rightarrow> ps
              | objValue \<Rightarrow> (if isArrayLikeObject objValue then copyArray (props_of objValue) else []))
             src))"
| "baseMergeDeep object key (JObject Plain src) =
     assignMergeValue object key
       (case get_prop object key of
          JObject k ps \<Rightarrow> JObject k (baseMerge ps src)
        | objValue \<Rightarrow> JObject Plain (baseMerge [] src))"
| "baseMergeDeep object key srcValue = assignMergeValue object key srcValue"

subsection \<open>Data of the App and of one request\<close>

text \<open>
  A middleware collection is the ordered list of its stages, each with its handlers in
  registration order. Handlers are named by identifiers; what a handler does is given by
  the environment, so that a handler can change the collection it is registered in.
\<close>

type_synonym mcoll = "(string \<times> hid list) list"

record plugin =
  plugin_name :: string
  is_platform :: bool

text \<open>
  \<^verbatim>\<open>App\<close>: the properties of \<^verbatim>\<open>this.config\<close>, the plugin registry in registration order (the order of
  \<^verbatim>\<open>Object.values(this.plugins)\<close>), the middleware collection, the private flag
  \<^verbatim>\<open>initialized\<close>, the optional \<^verbatim>\<open>errorCallback\<close>, and in \<open>world\<close> whatever state
  the localization object and the plugins' initialize hooks work on.
\<close>

record 'w app =
  config :: props
  plugins :: "plugin list"
  middlewareCollection :: mcoll
  initialized :: bool
  errorCallback :: "(error \<Rightarrow> outcome) option"
  world :: 'w

text \<open>
  One request: the fields of the \<^verbatim>\<open>HandleRequest\<close> (its own registry and middleware
  collection, the bound platform), the \<^verbatim>\<open>$response\<close> of the state object created for
  it, and the request's share of the opaque state.
\<close>

record 'w ctx =
  hr_plugins :: "plugin list"
  hr_middlewareCollection :: mcoll
  hr_platform :: "string option"
  jovo_response :: "response option"
  hr_world :: 'w

record server =
  getRequestObject :: request
  setResponse :: "response \<Rightarrow> error option"

text \<open>
  The environment. A hook or handler returns \<open>None\<close> when it completes and \<open>Some e\<close>
  when it throws \<open>e\<close>; the state it leaves behind is returned in both cases.
\<close>

record 'w env =
  i18n_initialize :: "'w \<Rightarrow> error option \<times> 'w"
  plugin_initialize :: "string \<Rightarrow> 'w \<Rightarrow> error option \<times> 'w"
  plugin_mount :: "string \<Rightarrow> 'w ctx \<Rightarrow> error option \<times> 'w ctx"
  plugin_dismount :: "string \<Rightarrow> 'w ctx \<Rightarrow> error option \<times> 'w ctx"
  isRequestRelated :: "string \<Rightarrow> request \<Rightarrow> bool"
  createJovoInstance :: "string \<Rightarrow> 'w ctx \<Rightarrow> error option \<times> 'w ctx"
  handler :: "hid \<Rightarrow> 'w ctx \<Rightarrow> error option \<times> 'w ctx"

subsection \<open>MiddlewareCollection\<close>

text \<open>
  Modelled from the spec: the class \<^verbatim>\<open>MiddlewareCollection\<close> (imported at line 18) is
  not among the sources. Section 4.1 of the specification: the collection is built from a
  catalog of stage names; \<^verbatim>\<open>use\<close> registers a handler at an existing stage and fails
  with an invalid-name error otherwise; \<^verbatim>\<open>remove\<close> clears a stage's handler list;
  \<^verbatim>\<open>run\<close> executes the given stage names in order and, for each, invokes every
  registered handler sequentially in registration order; a handler that throws ends the run,
  the remaining handlers and stages are not executed. The handlers of a stage are read from
  the collection when the stage is reached.
\<close>

definition MiddlewareCollection :: "string list \<Rightarrow> mcoll" where
  "MiddlewareCollection stage_names = map (\<lambda>n. (n, [])) stage_names"

definition mc_names :: "mcoll \<Rightarrow> string list" where
  "mc_names mc = map fst mc"

definition mc_get :: "mcoll \<Rightarrow> string \<Rightarrow> hid list" where
  "mc_get mc n = (case map_of mc n of None \<Rightarrow> [] | Some hs \<Rightarrow> hs)"

definition mc_use :: "string \<Rightarrow> hid \<Rightarrow> mcoll \<Rightarrow> error + mcoll" where
  "mc_use n h mc =
     (if n \<in> set (mc_names mc)
      then Inr (map (\<lambda>(m, hs). if m = n then (m, hs @ [h]) else (m, hs)) mc)
      else Inl (Thrown ''InvalidMiddlewareName''))"

definition mc_remove :: "string list \<Rightarrow> mcoll \<Rightarrow> mcoll" where
  "mc_remove ns mc = map (\<lambda>(m, hs). if m \<in> set ns then (m, []) else (m, hs)) mc"

fun run_handlers ::
  "'w env \<Rightarrow> string \<Rightarrow> hid list \<Rightarrow> 'w ctx \<Rightarrow> event list \<Rightarrow> error option \<times> 'w ctx \<times> event list"
where
  "run_handlers E n [] c lg = (None, c, lg)"
| "run_handlers E n (h # hs) c lg =
     (case handler E h c of
        (Some e, c') \<Rightarrow> (Some e, c', lg @ [CallHandler n h])
      | (None, c') \<Rightarrow> run_handlers E n hs c' (lg @ [CallHandler n h]))"

fun mc_run ::
  "'w env \<Rightarrow> string list \<Rightarrow> 'w ctx \<Rightarrow> event list \<Rightarrow> error option \<times> 'w ctx \<times> event list"
where
  "mc_run E [] c lg = (None, c, lg)"
| "mc_run E (n # ns) c lg =
     (case run_handlers E n (mc_get (hr_middlewareCollection c) n) c lg of
        (Some e, c', lg') \<Rightarrow> (Some e, c', lg')
      | (None, c', lg') \<Rightarrow> mc_run E ns c' lg')"

subsection \<open>The plugin lifecycle of Extensible\<close>

text \<open>
  Modelled from the spec: the class \<^verbatim>\<open>Extensible\<close> (imported at line 15), which
  \<^verbatim>\<open>App\<close> and \<^verbatim>\<open>HandleRequest\<close> extend, is not among the sources. Section 4.2 of
  the specification: \<^verbatim>\<open>initializePlugins\<close> calls each plugin's initialize hook once, in
  registration order, propagating the first failure and skipping the rest;
  \<^verbatim>\<open>mountPlugins\<close> and \<^verbatim>\<open>dismountPlugins\<close> run the mount and dismount hooks of every
  plugin in registration order; section 5: they are ordered, fail-fast sequences.
\<close>

fun run_hooks ::
  "(string \<Rightarrow> 's \<Rightarrow> error option \<times> 's) \<Rightarrow> (string \<Rightarrow> event) \<Rightarrow> string list \<Rightarrow> 's \<Rightarrow> event list
     \<Rightarrow> error option \<times> 's \<times> event list"
where
  "run_hooks hook ev [] s lg = (None, s, lg)"
| "run_hooks hook ev (p # ps) s lg =
     (case hook p s of
        (Some e, s') \<Rightarrow> (Some e, s', lg @ [ev p])
      | (None, s') \<Rightarrow> run_hooks hook ev ps s' (lg @ [ev p]))"

definition initializePlugins ::
  "'w env \<Rightarrow> plugin list \<Rightarrow> 'w \<Rightarrow> event list \<Rightarrow> error option \<times> 'w \<times> event list"
where
  "initializePlugins E ps w lg =
     run_hooks (plugin_initialize E) CallPluginInitialize (map plugin_name ps) w lg"

definition mountPlugins :: "'w env \<Rightarrow> 'w ctx \<Rightarrow> event list \<Rightarrow> error option \<times> 'w ctx \<times> event list" where
  "mountPlugins E c lg =
     run_hooks (plugin_mount E) CallMount (map plugin_name (hr_plugins c)) c lg"

definition dismountPlugins :: "'w env \<Rightarrow> 'w ctx \<Rightarrow> event list \<Rightarrow> error option \<times> 'w ctx \<times> event list" where
  "dismountPlugins E c lg =
     run_hooks (plugin_dismount E) CallDismount (map plugin_name (hr_plugins c)) c lg"

subsection \<open>HandleRequest (lines 213-250)\<close>

text \<open>
  The constructor, seen from the request pipeline: the new object starts with the App's
  registry and middleware collection (line 220 merges a clone of the App into it), no
  platform and no response. What the clone shares with the App is the subject of the store
  model further down.
\<close>

definition HandleRequest :: "'w app \<Rightarrow> server \<Rightarrow> 'w ctx" where
  "HandleRequest a srv =
     \<lparr>hr_plugins = plugins a,
      hr_middlewareCollection = middlewareCollection a,
      hr_platform = None,
      jovo_response = None,
      hr_world = world a\<rparr>"

definition platforms :: "'w ctx \<Rightarrow> plugin list" where
  "platforms c = filter is_platform (hr_plugins c)"

definition mount :: "'w env \<Rightarrow> 'w ctx \<Rightarrow> event list \<Rightarrow> error option \<times> 'w ctx \<times> event list" where
  "mount E c lg = mountPlugins E c lg"

definition dismount :: "'w env \<Rightarrow> 'w ctx \<Rightarrow> event list \<Rightarrow> error option \<times> 'w ctx \<times> event list" where
  "dismount E c lg = dismountPlugins E c lg"

definition stopMiddlewareExecution :: "'w ctx \<Rightarrow> 'w ctx" where
  "stopMiddlewareExecution c =
     c\<lparr>hr_middlewareCollection :=
         mc_remove (mc_names (hr_middlewareCollection c)) (hr_middlewareCollection c)\<rparr>"

subsection \<open>App (lines 66-205)\<close>

definition onError :: "(error \<Rightarrow> outcome) \<Rightarrow> 'w app \<Rightarrow> 'w app" where
  "onError cb a = a\<lparr>errorCallback := Some cb\<rparr>"

text \<open>
  \<^verbatim>\<open>use\<close> (lines 140-165) hands the plugins among its arguments to
  \<^verbatim>\<open>Extensible.use\<close> and the others to \<^verbatim>\<open>ComponentTree.add\<close>. Neither class is among
  the sources; both calls are parameters here, together with the \<^verbatim>\<open>instanceof Plugin\<close>
  test and the test-runner condition of line 147.
\<close>

record 'w usage =
  instanceof_Plugin :: "jv \<Rightarrow> bool"
  test_runner :: bool
  Extensible_use :: "jv list \<Rightarrow> 'w app \<Rightarrow> 'w app"
  componentTree_add :: "jv list \<Rightarrow> 'w app \<Rightarrow> 'w app"

definition use :: "'w usage \<Rightarrow> jv list \<Rightarrow> 'w app \<Rightarrow> 'w app" where
  "use U usables a =
     (let ps = filter
            (\<lambda>usable.
               if \<not> instanceof_Plugin U usable then False
               else if test_runner U \<and>
                       truthy (get_prop (props_of (get_prop (props_of usable) ''config'')) ''skipTests'')
               then False
               else True)
            usables;
          a1 = (if ps \<noteq> [] then Extensible_use U ps a else a);
          components = filter (\<lambda>usable. \<not> instanceof_Plugin U usable) usables
      in if components \<noteq> [] then componentTree_add U components a1 else a1)"

text \<open>
  \<^verbatim>\<open>configure\<close> (lines 95-99). The object literal of line 96 copies the properties of
  the argument and sets \<^verbatim>\<open>components\<close> and \<^verbatim>\<open>plugins\<close> to \<^verbatim>\<open>undefined\<close>;
  \<open>array_items\<close> reads \<^verbatim>\<open>config?.plugins || []\<close>, which the type \<^verbatim>\<open>AppInitConfig\<close>
  makes an array or \<^verbatim>\<open>undefined\<close>.
\<close>

definition array_items :: "jv \<Rightarrow> jv list" where
  "array_items v = (case v of JObject Array ps \<Rightarrow> map snd ps | _ \<Rightarrow> [])"

definition configure :: "'w usage \<Rightarrow> props \<Rightarrow> 'w app \<Rightarrow> 'w app" where
  "configure U cfg a =
     (let a1 = a\<lparr>config :=
                  baseMerge (config a)
                    (set_prop (set_prop cfg ''components'' JUndefined) ''plugins'' JUndefined)\<rparr>;
          usables = array_items (get_prop cfg ''plugins'') @ array_items (get_prop cfg ''components'')
      in use U usables a1)"

definition initializeMiddlewareCollection :: mcoll where
  "initializeMiddlewareCollection = MiddlewareCollection APP_MIDDLEWARES"

definition handleError :: "'w app \<Rightarrow> error \<Rightarrow> event list \<Rightarrow> outcome \<times> event list" where
  "handleError a e lg =
     (case errorCallback a of
        Some cb \<Rightarrow> (cb e, lg @ [CallErrorCallback e])
      | None \<Rightarrow> (Threw e, lg))"

definition initialize :: "'w env \<Rightarrow> 'w app \<Rightarrow> event list \<Rightarrow> outcome \<times> 'w app \<times> event list" where
  "initialize E a lg =
     (if initialized a then (Returned, a, lg)
      else
        (case i18n_initialize E (world a) of
           (Some e, w1) \<Rightarrow>
             (let (r, lg') = handleError a e (lg @ [CallI18nInitialize])
              in (r, a\<lparr>world := w1\<rparr>, lg'))
         | (None, w1) \<Rightarrow>
             (case initializePlugins E (plugins a) w1 (lg @ [CallI18nInitialize]) of
                (Some e, w2, lg2) \<Rightarrow>
                  (let (r, lg') = handleError a e lg2 in (r, a\<lparr>world := w2\<rparr>, lg'))
              | (None, w2, lg2) \<Rightarrow> (Returned, a\<lparr>world := w2, initialized := True\<rparr>, lg2))))"

text \<open>
  \<^verbatim>\<open>Array.prototype.find\<close> over \<^verbatim>\<open>handleRequest.platforms\<close> (lines 172-174): the
  predicate is called on the platforms in order and the search stops at the first one for
  which it holds.
\<close>

fun find_platform ::
  "'w env \<Rightarrow> plugin list \<Rightarrow> request \<Rightarrow> event list \<Rightarrow> plugin option \<times> event list"
where
  "find_platform E [] rq lg = (None, lg)"
| "find_platform E (p # ps) rq lg =
     (if isRequestRelated E (plugin_name p) rq
      then (Some p, lg @ [CallIsRequestRelated (plugin_name p)])
      else find_platform E ps rq (lg @ [CallIsRequestRelated (plugin_name p)]))"

definition handle :: "'w env \<Rightarrow> 'w app \<Rightarrow> server \<Rightarrow> outcome \<times> event list" where
  "handle E a srv =
     (let handleRequest = HandleRequest a srv in
      case mount E handleRequest [] of
        (Some e, c1, lg1) \<Rightarrow> handleError a e lg1
      | (None, c1, lg1) \<Rightarrow>
          (case find_platform E (platforms c1) (getRequestObject srv) lg1 of
             (None, lg2) \<Rightarrow>
               handleError a (MatchingPlatformNotFoundError (getRequestObject srv)) lg2
           | (Some relatedPlatform, lg2) \<Rightarrow>
               (case createJovoInstance E (plugin_name relatedPlatform)
                       (c1\<lparr>hr_platform := Some (plugin_name relatedPlatform)\<rparr>) of
                  (Some e, c2) \<Rightarrow>
                    handleError a e
                      (lg2 @ [CallCreateJovoInstance (plugin_name relatedPlatform)
                                (Some (plugin_name relatedPlatform))])
                | (None, c2) \<Rightarrow>
                    (case mc_run E APP_MIDDLEWARES c2
                            (lg2 @ [CallCreateJovoInstance (plugin_name relatedPlatform)
                                      (Some (plugin_name relatedPlatform))]) of
                       (Some e, c3, lg3) \<Rightarrow> handleError a e lg3
                     | (None, c3, lg3) \<Rightarrow>
                         (case dismount E c3 lg3 of
                            (Some e, c4, lg4) \<Rightarrow> handleError a e lg4
                          | (None, c4, lg4) \<Rightarrow>
                              (case jovo_response c4 of
                                 None \<Rightarrow> (Returned, lg4)
                               | Some r \<Rightarrow>
                                   (case setResponse srv r of
                                      Some e \<Rightarrow> handleError a e (lg4 @ [CallSetResponse r])
                                    | None \<Rightarrow> (Returned, lg4 @ [CallSetResponse r]))))))))"

subsection \<open>Reading an event list\<close>

fun written :: "event list \<Rightarrow> response list" where
  "written [] = []"
| "written (CallSetResponse r # es) = r # written es"
| "written (e # es) = written es"

fun dismounted :: "event list \<Rightarrow> string list" where
  "dismounted [] = []"
| "dismounted (CallDismount p # es) = p # dismounted es"
| "dismounted (e # es) = dismounted es"

fun handlers_called :: "event list \<Rightarrow> (string \<times> hid) list" where
  "handlers_called [] = []"
| "handlers_called (CallHandler n h # es) = (n, h) # handlers_called es"
| "handlers_called (e # es) = handlers_called es"

fun queried :: "event list \<Rightarrow> string list" where
  "queried [] = []"
| "queried (CallIsRequestRelated p # es) = p # queried es"
| "queried (e # es) = queried es"

subsection \<open>A concrete application\<close>

text \<open>
  An App with the router, a platform adapter that recognizes the payload \<open>''alexa''\<close>,
  and a second adapter that recognizes every payload; handler 1 sits at
  \<open>dialogue.router\<close>, handler 2 at \<open>dialogue.logic\<close>, handler 3 at \<open>response.output\<close>.
  In the plain environment every hook completes, handler 3 stores a response and the other
  handlers do nothing.
\<close>

definition app0 :: "unit app" where
  "app0 =
     \<lparr>config = [(''logging'', JBool True)],
      plugins =
        [\<lparr>plugin_name = ''RouterPlugin'', is_platform = False\<rparr>,
         \<lparr>plugin_name = ''AlexaPlatform'', is_platform = True\<rparr>,
         \<lparr>plugin_name = ''CorePlatform'', is_platform = True\<rparr>],
      middlewareCollection =
        map (\<lambda>n. (n, if n = ''dialogue.router'' then [1]
                      else if n = ''dialogue.logic'' then [2]
                      else if n = ''response.output'' then [3] else []))
          APP_MIDDLEWARES,
      initialized = False,
      errorCallback = None,
      world = ()\<rparr>"

definition env0 :: "unit env" where
  "env0 =
     \<lparr>i18n_initialize = (\<lambda>w. (None, w)),
      plugin_initialize = (\<lambda>p w. (None, w)),
      plugin_mount = (\<lambda>p c. (None, c)),
      plugin_dismount = (\<lambda>p c. (None, c)),
      isRequestRelated = (\<lambda>p rq. p = ''CorePlatform'' \<or> (p = ''AlexaPlatform'' \<and> rq = ''alexa'')),
      createJovoInstance = (\<lambda>p c. (None, c)),
      handler = (\<lambda>h c. if h = 3 then (None, c\<lparr>jovo_response := Some (Response ''hello'')\<rparr>)
                        else (None, c))\<rparr>"

definition server0 :: server where
  "server0 = \<lparr>getRequestObject = ''alexa'', setResponse = (\<lambda>r. None)\<rparr>"

text \<open>
  A usage in which \<^verbatim>\<open>Extensible.use\<close> enters every plugin into the registry under its
  class name and \<^verbatim>\<open>ComponentTree.add\<close> changes nothing that is modelled here.
\<close>

definition usage0 :: "unit usage" where
  "usage0 =
     \<lparr>instanceof_Plugin = (\<lambda>v. case v of JObject (Instance c) ps \<Rightarrow> True | _ \<Rightarrow> False),
      test_runner = False,
      Extensible_use =
        (\<lambda>ps a. a\<lparr>plugins := plugins a @
             map (\<lambda>v. \<lparr>plugin_name = (case v of JObject (Instance c) ps \<Rightarrow> c | _ \<Rightarrow> []),
                       is_platform = False\<rparr>) ps\<rparr>),
      componentTree_add = (\<lambda>cs a. a)\<rparr>"

subsection \<open>What a merge leaves at a key\<close>

text \<open>
  The amended reading of the merge semantics, value by value: an \<^verbatim>\<open>undefined\<close> source
  value leaves the destination's value; a plain-object source value is merged into the
  destination's object (of whatever kind), or into a new plain object when the destination
  holds no object there; an array source value is merged, index by index, into the
  destination's array, or into a new array when the destination holds none; every other
  source value (a scalar, a function, a class instance) takes the place of the
  destination's.
\<close>

definition spec_merged_value :: "jv \<Rightarrow> jv \<Rightarrow> jv" where
  "spec_merged_value objValue srcValue =
     (case srcValue of
        JUndefined \<Rightarrow> objValue
      | JObject Plain src \<Rightarrow>
          (case objValue of
             JObject k ps \<Rightarrow> JObject k (baseMerge ps src)
           | _ \<Rightarrow> JObject Plain (baseMerge [] src))
      | JObject Array src \<Rightarrow>
          (case objValue of
             JObject Array ps \<Rightarrow> JObject Array (baseMerge ps src)
           | _ \<Rightarrow>
               JObject Array
                 (baseMerge (if isArrayLikeObject objValue then copyArray (props_of objValue) else [])
                    src))
      | _ \<Rightarrow> srcValue)"

definition spec_merged_at :: "props \<Rightarrow> props \<Rightarrow> string \<Rightarrow> jv" where
  "spec_merged_at object source key =
     (case map_of source key of
        None \<Rightarrow> get_prop object key
      | Some srcValue \<Rightarrow> spec_merged_value (get_prop object key) srcValue)"

subsection \<open>Objects in a store\<close>

text \<open>
  The constructor of \<^verbatim>\<open>HandleRequest\<close> (lines 217-221) clones object graphs and merges
  one into another; whether the result shares an object with the App depends on which
  references are copied and which are followed. For this the objects live in a store: a
  list of cells, an address is an index of the list, and a property holds a primitive value,
  a function or the address of a cell. A function is a value without properties of its own.
  Reading a property that an object does not have gives \<^verbatim>\<open>undefined\<close>; assigning keeps
  the position of an existing key and appends a new one; a new object is allocated at the
  end of the store.
\<close>

type_synonym addr = nat

datatype val =
    VUndefined
  | VNull
  | VBool bool
  | VNum int
  | VStr string
  | VFunction string
  | VRef addr

datatype obj = Obj (okind: kind) (oprops: "(string \<times> val) list")

type_synonym store = "obj list"

definition lookup :: "(string \<times> val) list \<Rightarrow> string \<Rightarrow> val" where
  "lookup ps key = (case map_of ps key of None \<Rightarrow> VUndefined | Some v \<Rightarrow> v)"

fun assign :: "(string \<times> val) list \<Rightarrow> string \<Rightarrow> val \<Rightarrow> (string \<times> val) list" where
  "assign [] key v = [(key, v)]"
| "assign ((k, w) # ps) key v = (if k = key then (k, v) # ps else (k, w) # assign ps key v)"

definition st_get :: "store \<Rightarrow> addr \<Rightarrow> string \<Rightarrow> val" where
  "st_get h a key = lookup (oprops (h ! a)) key"

definition st_set :: "store \<Rightarrow> addr \<Rightarrow> string \<Rightarrow> val \<Rightarrow> store" where
  "st_set h a key v = h[a := Obj (okind (h ! a)) (assign (oprops (h ! a)) key v)]"

definition alloc :: "store \<Rightarrow> obj \<Rightarrow> store \<times> addr" where
  "alloc h ob = (h @ [ob], length h)"

text \<open>
  \<^verbatim>\<open>lodash.clonedeep\<close> (imported at line 206) is a third-party library and not part of
  the repository. It is embedded after the library's behaviour: \<open>baseClone\<close> returns a
  primitive as it is, returns a function that is the value of a property as it is, and
  copies an object of any kind (plain object, array, class instance) into a new object of
  the same kind, property by property and recursively. The library keeps a stack that maps
  every object it has started to copy to its copy; an object met again (shared or on a
  cycle) is given the copy it already has. At the top level a function is cloned to an empty
  object. The first argument bounds the depth of the recursion: the result is \<open>None\<close>
  when it is used up, and when a reference points outside the store.
\<close>

fun baseClone ::
  "nat \<Rightarrow> store \<Rightarrow> (addr \<times> addr) list \<Rightarrow> val \<Rightarrow> (store \<times> (addr \<times> addr) list \<times> val) option"
and cloneProps ::
  "nat \<Rightarrow> store \<Rightarrow> (addr \<times> addr) list \<Rightarrow> addr \<Rightarrow> (string \<times> val) list
     \<Rightarrow> (store \<times> (addr \<times> addr) list) option"
where
  "baseClone 0 h stack (VRef a) = None"
| "baseClone (Suc n) h stack (VRef a) =
     (if length h \<le> a then None
      else
        (case map_of stack a of
           Some stacked \<Rightarrow> Some (h, stack, VRef stacked)
         | None \<Rightarrow>
             (case cloneProps n (h @ [Obj (okind (h ! a)) []]) ((a, length h) # stack) (length h)
                     (oprops (h ! a)) of
                None \<Rightarrow> None
              | Some (h', stack') \<Rightarrow> Some (h', stack', VRef (length h)))))"
| "baseClone n h stack v = Some (h, stack, v)"
| "cloneProps n h stack result [] = Some (h, stack)"
| "cloneProps n h stack result ((key, subValue) # props) =
     (case baseClone n h stack subValue of
        None \<Rightarrow> None
      | Some (h', stack', v) \<Rightarrow> cloneProps n (st_set h' result key v) stack' result props)"

definition cloneDeep :: "nat \<Rightarrow> store \<Rightarrow> val \<Rightarrow> (store \<times> val) option" where
  "cloneDeep n h v =
     (case v of
        VFunction f \<Rightarrow> Some (h @ [Obj Plain []], VRef (length h))
      | _ \<Rightarrow> (case baseClone n h [] v of None \<Rightarrow> None | Some (h', stack', r) \<Rightarrow> Some (h', r)))"

text \<open>
  \<^verbatim>\<open>lodash.merge\<close> on the store, with the same cases as \<open>baseMerge\<close> on values above:
  a source value that is not an object is assigned by \<open>assignMergeValue\<close>; a source value
  that is an array or a plain object is merged recursively into the destination's value
  when that is an object (an array, for a source array), into a new object otherwise; any
  other source object (a class instance) is assigned by reference. While an object of the
  source is being merged the library's stack maps it to its destination, so that a cycle of
  the source ends. \<open>mergeTarget\<close> is the object that \<open>baseMergeDeep\<close> merges one property
  into.
\<close>

definition assignMergeValue_st :: "store \<Rightarrow> addr \<Rightarrow> string \<Rightarrow> val \<Rightarrow> store" where
  "assignMergeValue_st h object key v =
     (if (v \<noteq> VUndefined \<and> st_get h object key \<noteq> v) \<or>
         (v = VUndefined \<and> key \<notin> set (map fst (oprops (h ! object))))
      then st_set h object key v else h)"

definition isArrayLikeObject_st :: "store \<Rightarrow> val \<Rightarrow> bool" where
  "isArrayLikeObject_st h v =
     (case v of
        VRef a \<Rightarrow>
          okind (h ! a) = Array \<or>
          (case lookup (oprops (h ! a)) ''length'' of
             VNum n \<Rightarrow> 0 \<le> n \<and> n \<le> 9007199254740991
           | _ \<Rightarrow> False)
      | _ \<Rightarrow> False)"

definition copyArray_st :: "(string \<times> val) list \<Rightarrow> (string \<times> val) list" where
  "copyArray_st ps =
     (case lookup ps ''length'' of
        VNum n \<Rightarrow> map (\<lambda>i. (digits i, lookup ps (digits i))) [0..<nat n]
      | _ \<Rightarrow> [])"

definition mergeTarget :: "store \<Rightarrow> kind \<Rightarrow> val \<Rightarrow> (store \<times> addr) option" where
  "mergeTarget h srcKind objValue =
     (case srcKind of
        Array \<Rightarrow>
          (case objValue of
             VRef a \<Rightarrow>
               (if length h \<le> a then None
                else if okind (h ! a) = Array then Some (h, a)
                else if isArrayLikeObject_st h objValue
                then Some (alloc h (Obj Array (copyArray_st (oprops (h ! a)))))
                else Some (alloc h (Obj Array [])))
           | _ \<Rightarrow> Some (alloc h (Obj Array [])))
      | _ \<Rightarrow>
          (case objValue of
             VRef a \<Rightarrow> (if length h \<le> a then None else Some (h, a))
           | _ \<Rightarrow> Some (alloc h (Obj Plain []))))"

function baseMerge_st :: "nat \<Rightarrow> store \<Rightarrow> (addr \<times> addr) list \<Rightarrow> addr \<Rightarrow> addr \<Rightarrow> store option"
and mergeKeys ::
  "nat \<Rightarrow> store \<Rightarrow> (addr \<times> addr) list \<Rightarrow> addr \<Rightarrow> addr \<Rightarrow> string list \<Rightarrow> store option"
where
  "baseMerge_st 0 h stack object source = None"
| "baseMerge_st (Suc n) h stack object source =
     (if object = source then Some h
      else if length h \<le> object \<or> length h \<le> source then None
      else mergeKeys n h stack object source (map fst (oprops (h ! source))))"
| "mergeKeys n h stack object source [] = Some h"
| "mergeKeys n h stack object source (key # keys) =
     (case st_get h source key of
        VRef s \<Rightarrow>
          (if length h \<le> s then None
           else
             (case map_of stack s of
                Some stacked \<Rightarrow>
                  mergeKeys n (assignMergeValue_st h object key (VRef stacked)) stack object source keys
              | None \<Rightarrow>
                  (case okind (h ! s) of
                     Instance c \<Rightarrow>
                       mergeKeys n (assignMergeValue_st h object key (VRef s)) stack object source keys
                   | srcKind \<Rightarrow>
                       (case mergeTarget h srcKind (st_get h object key) of
                          None \<Rightarrow> None
                        | Some (h1, newValue) \<Rightarrow>
                            (case baseMerge_st n h1 ((s, newValue) # stack) newValue s of
                               None \<Rightarrow> None
                             | Some h2 \<Rightarrow>
                                 mergeKeys n (assignMergeValue_st h2 object key (VRef newValue))
                                   stack object source keys)))))
      | srcValue \<Rightarrow> mergeKeys n (assignMergeValue_st h object key srcValue) stack object source keys)"
  by pat_completeness auto
termination
  by (relation "inv_image (less_than <*lex*> less_than <*lex*> less_than)
        (\<lambda>x. case x of
                Inl (n, h, stack, object, source) \<Rightarrow> (n, 0, 0)
              | Inr (n, h, stack, object, source, keys) \<Rightarrow> (n, 1, length keys))") auto

definition merge_st :: "nat \<Rightarrow> store \<Rightarrow> addr \<Rightarrow> val \<Rightarrow> store option" where
  "merge_st n h object source =
     (case source of VRef s \<Rightarrow> baseMerge_st n h [] object s | _ \<Rightarrow> Some h)"

text \<open>
  What a reference denotes in a store, unfolded to the depth \<open>d\<close>: the value that a reader
  of the object sees. \<open>cells d h v\<close> are the addresses that such a reader passes through.
\<close>

fun view :: "nat \<Rightarrow> store \<Rightarrow> val \<Rightarrow> jv" where
  "view d h VUndefined = JUndefined"
| "view d h VNull = JNull"
| "view d h (VBool b) = JBool b"
| "view d h (VNum i) = JNum i"
| "view d h (VStr s) = JStr s"
| "view d h (VFunction f) = JFunction f"
| "view 0 h (VRef a) = JUndefined"
| "view (Suc d) h (VRef a) =
     (if length h \<le> a then JUndefined
      else JObject (okind (h ! a)) (map (\<lambda>(k, v). (k, view d h v)) (oprops (h ! a))))"

fun cells :: "nat \<Rightarrow> store \<Rightarrow> val \<Rightarrow> addr set" where
  "cells 0 h v = {}"
| "cells (Suc d) h (VRef a) =
     (if length h \<le> a then {}
      else insert a (\<Union>(k, v)\<in>set (oprops (h ! a)). cells d h v))"
| "cells (Suc d) h v = {}"

text \<open>\<open>same_cells lo hi h h'\<close>: the store \<open>h'\<close> has the cells \<open>lo\<close> to \<open>hi - 1\<close> of \<open>h\<close>.\<close>

definition same_cells :: "nat \<Rightarrow> nat \<Rightarrow> store \<Rightarrow> store \<Rightarrow> bool" where
  "same_cells lo hi h h' = (\<forall>a\<in>{lo..<hi}. a < length h' \<and> h' ! a = h ! a)"

subsection \<open>The constructor of HandleRequest on the store (lines 217-221)\<close>

text \<open>
  \<open>getDefaultConfig\<close> (lines 233-238) returns a new object with two new empty objects;
  \<open>initializeMiddlewareCollection\<close> (lines 229-231) returns a new, empty collection.
\<close>

definition getDefaultConfig_st :: "store \<Rightarrow> store \<times> addr" where
  "getDefaultConfig_st h =
     (let (h1, intentMap) = alloc h (Obj Plain []);
          (h2, logging) = alloc h1 (Obj Plain [])
      in alloc h2 (Obj Plain [(''intentMap'', VRef intentMap), (''logging'', VRef logging)]))"

definition initializeMiddlewareCollection_st :: "store \<Rightarrow> store \<times> addr" where
  "initializeMiddlewareCollection_st h = alloc h (Obj (Instance ''MiddlewareCollection'') [])"

text \<open>
  Modelled from the spec: the constructor of \<^verbatim>\<open>Extensible\<close> (imported at line 209),
  which line 218 calls through \<^verbatim>\<open>super\<close>, is not among the sources. Section 3 of the
  specification: the registry owns a mapping from plugin name to plugin instance and one
  middleware collection, fixed at construction; section 4.2: a default config is resolved
  and the caller-supplied config is deep-merged over it. So the constructor merges its
  argument into the object's default config, which becomes \<^verbatim>\<open>this.config\<close>, and sets
  \<^verbatim>\<open>this.plugins\<close> to a new empty object and \<^verbatim>\<open>this.middlewareCollection\<close> to the
  result of \<open>initializeMiddlewareCollection\<close>.
\<close>

definition Extensible_init :: "nat \<Rightarrow> store \<Rightarrow> addr \<Rightarrow> val \<Rightarrow> store option" where
  "Extensible_init n h this cfg =
     (let (h1, defaultConfig) = getDefaultConfig_st h in
      case merge_st n h1 defaultConfig cfg of
        None \<Rightarrow> None
      | Some h2 \<Rightarrow>
          (let h3 = st_set h2 this ''config'' (VRef defaultConfig);
               (h4, registry) = alloc h3 (Obj Plain []);
               h5 = st_set h4 this ''plugins'' (VRef registry);
               (h6, collection) = initializeMiddlewareCollection_st h5
           in Some (st_set h6 this ''middlewareCollection'' (VRef collection))))"

text \<open>
  The constructor (lines 217-221). Line 218 passes a deep clone of \<^verbatim>\<open>app.config\<close> to the
  constructor of \<^verbatim>\<open>Extensible\<close>; the parameter properties \<^verbatim>\<open>app\<close> and \<^verbatim>\<open>server\<close> of
  line 217 are assigned when it returns; line 219 stores a new component tree; line 220
  merges a deep clone of the App into the new object. The result is the store after the
  construction and the address of the new object.
\<close>

definition HandleRequest_new :: "nat \<Rightarrow> store \<Rightarrow> addr \<Rightarrow> val \<Rightarrow> (store \<times> addr) option" where
  "HandleRequest_new n h app server =
     (if length h \<le> app then None
      else
        (case cloneDeep n h (st_get h app ''config'') of
           None \<Rightarrow> None
         | Some (h1, cfg) \<Rightarrow>
             (let (h2, this) = alloc h1 (Obj (Instance ''HandleRequest'') []) in
              case Extensible_init n h2 this cfg of
                None \<Rightarrow> None
              | Some h3 \<Rightarrow>
                  (let h4 = st_set h3 this ''app'' (VRef app);
                       h5 = st_set h4 this ''server'' server;
                       (h6, tree) = alloc h5 (Obj (Instance ''ComponentTree'') []);
                       h7 = st_set h6 this ''componentTree'' (VRef tree)
                   in case cloneDeep n h7 (VRef app) of
                        None \<Rightarrow> None
                      | Some (h8, clone) \<Rightarrow>
                          (case merge_st n h8 this clone of
                             None \<Rightarrow> None
                           | Some h9 \<Rightarrow> Some (h9, this))))))"

text \<open>
  A store with one application: a config with a nested object and an array, one platform
  plugin whose \<^verbatim>\<open>parent\<close> refers back to the App (a cycle), the App at address 7 and the
  transport at address 8.
\<close>

definition store0 :: store where
  "store0 =
     [Obj Array [(''0'', VStr ''END''), (''1'', VStr ''STOP'')],
      Obj Plain [(''intentsToSkipUnhandled'', VRef 0)],
      Obj Plain [(''logging'', VBool True), (''routing'', VRef 1)],
      Obj Plain [(''skillId'', VStr ''amzn1'')],
      Obj (Instance ''AlexaPlatform'') [(''config'', VRef 3), (''parent'', VRef 7)],
      Obj Plain [(''AlexaPlatform'', VRef 4)],
      Obj (Instance ''MiddlewareCollection'') [],
      Obj (Instance ''App'')
        [(''config'', VRef 2), (''plugins'', VRef 5), (''middlewareCollection'', VRef 6),
         (''initialized'', VBool True), (''componentTree'', VRef 9), (''i18n'', VRef 10),
         (''errorCallback'', VFunction ''cb'')],
      Obj (Instance ''Server'') [],
      Obj (Instance ''ComponentTree'') [],
      Obj (Instance ''I18Next'') []]"

subsection \<open>Well-formed stores and regions\<close>

text \<open>
  A store is well formed when no property refers outside it. A set of addresses is closed
  when the properties of its cells refer into the set only. \<open>region n0 X h\<close> are the
  cells allocated from address \<open>n0\<close> on, without those of \<open>X\<close>; \<open>sinv\<close> says that this
  region is closed, \<open>frame\<close> that a step leaves the cells below \<open>n0\<close> and those of \<open>X\<close>
  as they were, \<open>ext\<close> that a step only allocates.
\<close>

fun val_ok :: "nat \<Rightarrow> val \<Rightarrow> bool" where
  "val_ok n (VRef a) = (a < n)"
| "val_ok n v = True"

definition wf_store :: "store \<Rightarrow> bool" where
  "wf_store h = (\<forall>ob\<in>set h. \<forall>(k, v)\<in>set (oprops ob). val_ok (length h) v)"

fun val_in :: "addr set \<Rightarrow> val \<Rightarrow> bool" where
  "val_in R (VRef a) = (a \<in> R)"
| "val_in R v = True"

definition closed_in :: "addr set \<Rightarrow> store \<Rightarrow> bool" where
  "closed_in R h = (\<forall>a\<in>R. \<forall>(k, v)\<in>set (oprops (h ! a)). val_in R v)"

definition region :: "nat \<Rightarrow> addr set \<Rightarrow> store \<Rightarrow> addr set" where
  "region n0 X h = {a. n0 \<le> a \<and> a < length h \<and> a \<notin> X}"

definition sinv :: "nat \<Rightarrow> addr set \<Rightarrow> store \<Rightarrow> bool" where
  "sinv n0 X h = (wf_store h \<and> n0 \<le> length h \<and> (\<forall>x\<in>X. x < length h) \<and>
                 closed_in (region n0 X h) h)"

definition stack_ok :: "addr set \<Rightarrow> (addr \<times> addr) list \<Rightarrow> bool" where
  "stack_ok R stack = (\<forall>(s, r)\<in>set stack. r \<in> R)"

definition frame :: "nat \<Rightarrow> addr set \<Rightarrow> store \<Rightarrow> store \<Rightarrow> bool" where
  "frame n0 X h h' = (length h \<le> length h' \<and> (\<forall>a<length h. a < n0 \<or> a \<in> X \<longrightarrow> h' ! a = h ! a))"

definition ext :: "store \<Rightarrow> store \<Rightarrow> bool" where
  "ext h h' = (length h \<le> length h' \<and> (\<forall>a<length h. h' ! a = h ! a))"

text \<open>The invariant of the constructor's steps once \<open>this\<close> exists.\<close>

definition building :: "store \<Rightarrow> addr \<Rightarrow> store \<Rightarrow> bool" where
  "building h0 this h =
     (sinv (length h0) {this} h \<and> (\<forall>a<length h0. h ! a = h0 ! a) \<and> length h0 \<le> this \<and>
      (\<forall>k. k = ''app'' \<or> k = ''server'' \<or> val_in (region (length h0) {this} h) (st_get h this k)))"



section \<open>Properties\<close>

subsection \<open>Event lists\<close>

lemma written_append: "written (xs @ ys) = written xs @ written ys"
  by (induction xs rule: written.induct) simp_all

lemma dismounted_append: "dismounted (xs @ ys) = dismounted xs @ dismounted ys"
  by (induction xs rule: dismounted.induct) simp_all

lemma written_map_mount: "written (map CallMount ps) = []"
  by (induction ps) simp_all

lemma written_map_dismount: "written (map CallDismount ps) = []"
  by (induction ps) simp_all

lemma dismounted_map_mount: "dismounted (map CallMount ps) = []"
  by (induction ps) simp_all


lemma written_map_query: "written (map (\<lambda>p. CallIsRequestRelated (f p)) ps) = []"
  by (induction ps) simp_all

lemma dismounted_map_query: "dismounted (map (\<lambda>p. CallIsRequestRelated (f p)) ps) = []"
  by (induction ps) simp_all

lemma written_map_handler: "written (map (CallHandler n) hs) = []"
  by (induction hs) simp_all

lemma dismounted_map_handler: "dismounted (map (CallHandler n) hs) = []"
  by (induction hs) simp_all

subsection \<open>Sequences of hooks and handlers\<close>

lemma run_hooks_log:
  "run_hooks hook ev ps s lg = (r, s', lg') \<Longrightarrow>
     \<exists>k\<le>length ps. lg' = lg @ map ev (take k ps) \<and> (r = None \<longrightarrow> k = length ps)"
proof (induction ps arbitrary: s lg)
  case Nil
  then show ?case by simp
next
  case (Cons p ps)
  obtain r1 s1 where h: "hook p s = (r1, s1)" by (cases "hook p s")
  show ?case
  proof (cases r1)
    case None
    with Cons.prems h have "run_hooks hook ev ps s1 (lg @ [ev p]) = (r, s', lg')" by simp
    from Cons.IH[OF this] obtain k where
      "k \<le> length ps" "lg' = (lg @ [ev p]) @ map ev (take k ps)" "r = None \<longrightarrow> k = length ps"
      by blast
    then show ?thesis by (intro exI[of _ "Suc k"]) simp
  next
    case (Some e)
    with Cons.prems h have "lg' = lg @ [ev p]" "r = Some e" by simp_all
    then show ?thesis by (intro exI[of _ "Suc 0"]) simp
  qed
qed

lemma run_hooks_complete:
  "run_hooks hook ev ps s lg = (None, s', lg') \<Longrightarrow> lg' = lg @ map ev ps"
  using run_hooks_log[of hook ev ps s lg None s' lg'] by auto

lemma run_handlers_log:
  "run_handlers E n hs c lg = (r, c', lg') \<Longrightarrow>
     \<exists>k\<le>length hs. lg' = lg @ map (CallHandler n) (take k hs) \<and> (r = None \<longrightarrow> k = length hs)"
proof (induction hs arbitrary: c lg)
  case Nil
  then show ?case by simp
next
  case (Cons h hs)
  obtain r1 c1 where h: "handler E h c = (r1, c1)" by (cases "handler E h c")
  show ?case
  proof (cases r1)
    case None
    with Cons.prems h have "run_handlers E n hs c1 (lg @ [CallHandler n h]) = (r, c', lg')" by simp
    from Cons.IH[OF this] obtain k where
      "k \<le> length hs" "lg' = (lg @ [CallHandler n h]) @ map (CallHandler n) (take k hs)"
      "r = None \<longrightarrow> k = length hs"
      by blast
    then show ?thesis by (intro exI[of _ "Suc k"]) simp
  next
    case (Some e)
    with Cons.prems h have "lg' = lg @ [CallHandler n h]" "r = Some e" by simp_all
    then show ?thesis by (intro exI[of _ "Suc 0"]) simp
  qed
qed

lemma run_handlers_append:
  "run_handlers E n hs c lg = (None, c0, lg0) \<Longrightarrow>
     run_handlers E n (hs @ hs') c lg = run_handlers E n hs' c0 lg0"
  by (induction hs arbitrary: c lg) (auto split: prod.splits option.splits)

lemma mc_run_log:
  "mc_run E ns c lg = (r, c', lg') \<Longrightarrow>
     \<exists>ev. lg' = lg @ ev \<and> written ev = [] \<and> dismounted ev = []"
proof (induction ns arbitrary: c lg)
  case Nil
  then show ?case by simp
next
  case (Cons n ns)
  obtain r1 c1 lg1 where h:
    "run_handlers E n (mc_get (hr_middlewareCollection c) n) c lg = (r1, c1, lg1)"
    by (cases "run_handlers E n (mc_get (hr_middlewareCollection c) n) c lg")
  from run_handlers_log[OF h] obtain k where
    k: "lg1 = lg @ map (CallHandler n) (take k (mc_get (hr_middlewareCollection c) n))"
    by blast
  show ?case
  proof (cases r1)
    case None
    with Cons.prems h have "mc_run E ns c1 lg1 = (r, c', lg')" by simp
    from Cons.IH[OF this] obtain ev where
      "lg' = lg1 @ ev" "written ev = []" "dismounted ev = []" by blast
    with k show ?thesis
      by (intro exI[of _ "map (CallHandler n) (take k (mc_get (hr_middlewareCollection c) n)) @ ev"])
         (simp add: written_append dismounted_append written_map_handler dismounted_map_handler)
  next
    case (Some e)
    with Cons.prems h have "lg' = lg1" by simp
    with k show ?thesis
      by (intro exI[of _ "map (CallHandler n) (take k (mc_get (hr_middlewareCollection c) n))"])
         (simp add: written_map_handler dismounted_map_handler)
  qed
qed

lemma find_platform_eq:
  "find_platform E ps rq lg =
     (List.find (\<lambda>p. isRequestRelated E (plugin_name p) rq) ps,
      lg @ map (\<lambda>p. CallIsRequestRelated (plugin_name p))
             (takeWhile (\<lambda>p. \<not> isRequestRelated E (plugin_name p) rq) ps @
              take 1 (dropWhile (\<lambda>p. \<not> isRequestRelated E (plugin_name p) rq) ps)))"
  by (induction ps arbitrary: lg) simp_all

lemma handleError_log:
  "snd (handleError a e lg) = lg \<or> snd (handleError a e lg) = lg @ [CallErrorCallback e]"
  by (simp add: handleError_def split: option.splits)

lemma handleError_prefix: "prefix lg (snd (handleError a e lg))"
  using handleError_log[of a e lg] by auto

lemma handleError_written: "written (snd (handleError a e lg)) = written lg"
  using handleError_log[of a e lg] by (auto simp: written_append)

lemma handleError_dismounted: "dismounted (snd (handleError a e lg)) = dismounted lg"
  using handleError_log[of a e lg] by (auto simp: dismounted_append)

lemma mount_log:
  "mount E c lg = (r, c', lg') \<Longrightarrow>
     \<exists>k\<le>length (hr_plugins c). lg' = lg @ map CallMount (take k (map plugin_name (hr_plugins c)))"
  unfolding mount_def mountPlugins_def by (drule run_hooks_log) auto

lemma dismount_log:
  "dismount E c lg = (r, c', lg') \<Longrightarrow>
     \<exists>k\<le>length (hr_plugins c).
        lg' = lg @ map CallDismount (take k (map plugin_name (hr_plugins c))) \<and>
        (r = None \<longrightarrow> k = length (hr_plugins c))"
  unfolding dismount_def dismountPlugins_def by (drule run_hooks_log) auto


subsection \<open>The control flow of initialize and handle\<close>

lemma initialize_cases:
  "initialize E a lg = (Returned, a, lg) \<and> initialized a \<or>
   (\<exists>w. initialize E a lg =
      (Returned, a\<lparr>world := w, initialized := True\<rparr>,
       lg @ CallI18nInitialize # map CallPluginInitialize (map plugin_name (plugins a)))) \<or>
   (\<exists>e w lg0. prefix (lg @ [CallI18nInitialize]) lg0 \<and> initialize E a lg =
      (fst (handleError a e lg0), a\<lparr>world := w\<rparr>, snd (handleError a e lg0)))"
proof (cases "initialized a")
  case True
  then show ?thesis by (simp add: initialize_def)
next
  case False
  obtain r1 w1 where i: "i18n_initialize E (world a) = (r1, w1)"
    by (cases "i18n_initialize E (world a)")
  show ?thesis
  proof (cases r1)
    case (Some e)
    with False i have "initialize E a lg =
        (fst (handleError a e (lg @ [CallI18nInitialize])), a\<lparr>world := w1\<rparr>,
         snd (handleError a e (lg @ [CallI18nInitialize])))"
      by (simp add: initialize_def split_beta)
    then show ?thesis by blast
  next
    case None
    obtain r2 w2 lg2 where p:
      "initializePlugins E (plugins a) w1 (lg @ [CallI18nInitialize]) = (r2, w2, lg2)"
      by (cases "initializePlugins E (plugins a) w1 (lg @ [CallI18nInitialize])")
    from p have pre: "prefix (lg @ [CallI18nInitialize]) lg2"
      unfolding initializePlugins_def by (auto dest!: run_hooks_log)
    show ?thesis
    proof (cases r2)
      case (Some e)
      with False i None p have "initialize E a lg =
          (fst (handleError a e lg2), a\<lparr>world := w2\<rparr>, snd (handleError a e lg2))"
        by (simp add: initialize_def split_beta)
      with pre show ?thesis by blast
    next
      case None2: None
      from p None2 have "lg2 = (lg @ [CallI18nInitialize]) @
          map CallPluginInitialize (map plugin_name (plugins a))"
        unfolding initializePlugins_def by (auto dest: run_hooks_complete)
      with False i None p None2 have "initialize E a lg =
          (Returned, a\<lparr>world := w2, initialized := True\<rparr>,
           lg @ CallI18nInitialize # map CallPluginInitialize (map plugin_name (plugins a)))"
        by (simp add: initialize_def)
      then show ?thesis by blast
    qed
  qed
qed

lemma handle_after_run:
  assumes "mount E (HandleRequest a srv) [] = (None, c1, lg1)"
    and "find_platform E (platforms c1) (getRequestObject srv) lg1 = (Some p, lg2)"
    and "createJovoInstance E (plugin_name p) (c1\<lparr>hr_platform := Some (plugin_name p)\<rparr>) = (None, c2)"
    and "mc_run E APP_MIDDLEWARES c2
           (lg2 @ [CallCreateJovoInstance (plugin_name p) (Some (plugin_name p))]) = (r3, c3, lg3)"
  shows "handle E a srv =
     (case r3 of
        Some e \<Rightarrow> handleError a e lg3
      | None \<Rightarrow>
          (case dismount E c3 lg3 of
             (Some e, c4, lg4) \<Rightarrow> handleError a e lg4
           | (None, c4, lg4) \<Rightarrow>
               (case jovo_response c4 of
                  None \<Rightarrow> (Returned, lg4)
                | Some r \<Rightarrow>
                    (case setResponse srv r of
                       Some e \<Rightarrow> handleError a e (lg4 @ [CallSetResponse r])
                     | None \<Rightarrow> (Returned, lg4 @ [CallSetResponse r])))))"
  using assms by (simp add: handle_def split: option.splits)

lemma handle_after_dismount:
  assumes "mount E (HandleRequest a srv) [] = (None, c1, lg1)"
    and "find_platform E (platforms c1) (getRequestObject srv) lg1 = (Some p, lg2)"
    and "createJovoInstance E (plugin_name p) (c1\<lparr>hr_platform := Some (plugin_name p)\<rparr>) = (None, c2)"
    and "mc_run E APP_MIDDLEWARES c2
           (lg2 @ [CallCreateJovoInstance (plugin_name p) (Some (plugin_name p))]) = (None, c3, lg3)"
    and "dismount E c3 lg3 = (r4, c4, lg4)"
  shows "handle E a srv =
     (case r4 of
        Some e \<Rightarrow> handleError a e lg4
      | None \<Rightarrow>
          (case jovo_response c4 of
             None \<Rightarrow> (Returned, lg4)
           | Some r \<Rightarrow>
               (case setResponse srv r of
                  Some e \<Rightarrow> handleError a e (lg4 @ [CallSetResponse r])
                | None \<Rightarrow> (Returned, lg4 @ [CallSetResponse r]))))"
  using assms by (simp add: handle_def split: option.splits)

lemma handle_log_after_dismount:
  assumes "mount E (HandleRequest a srv) [] = (None, c1, lg1)"
    and "find_platform E (platforms c1) (getRequestObject srv) lg1 = (Some p, lg2)"
    and "createJovoInstance E (plugin_name p) (c1\<lparr>hr_platform := Some (plugin_name p)\<rparr>) = (None, c2)"
    and "mc_run E APP_MIDDLEWARES c2
           (lg2 @ [CallCreateJovoInstance (plugin_name p) (Some (plugin_name p))]) = (None, c3, lg3)"
    and "dismount E c3 lg3 = (r4, c4, lg4)"
  shows "prefix lg4 (snd (handle E a srv)) \<and> dismounted (snd (handle E a srv)) = dismounted lg4"
proof -
  have "prefix lg (snd (handleError a e lg))" "dismounted (snd (handleError a e lg)) = dismounted lg"
    for e lg by (rule handleError_prefix, rule handleError_dismounted)
  moreover have "prefix lg4 (snd (handleError a e (lg4 @ [CallSetResponse r])))" for e r
    using handleError_prefix[of "lg4 @ [CallSetResponse r]" a e] by (auto elim: prefixE)
  moreover have "dismounted (snd (handleError a e (lg4 @ [CallSetResponse r]))) = dismounted lg4" for e r
    by (simp add: handleError_dismounted dismounted_append)
  ultimately show ?thesis
    unfolding handle_after_dismount[OF assms]
    by (simp add: dismounted_append split: option.splits)
qed

lemma handle_cases:
  "(\<exists>c1 lg1 p lg2 c2 c3 lg3 c4 lg4.
      mount E (HandleRequest a srv) [] = (None, c1, lg1) \<and>
      find_platform E (platforms c1) (getRequestObject srv) lg1 = (Some p, lg2) \<and>
      createJovoInstance E (plugin_name p) (c1\<lparr>hr_platform := Some (plugin_name p)\<rparr>) = (None, c2) \<and>
      mc_run E APP_MIDDLEWARES c2
        (lg2 @ [CallCreateJovoInstance (plugin_name p) (Some (plugin_name p))]) = (None, c3, lg3) \<and>
      dismount E c3 lg3 = (None, c4, lg4) \<and>
      (case jovo_response c4 of
         None \<Rightarrow> handle E a srv = (Returned, lg4)
       | Some r \<Rightarrow> setResponse srv r = None \<and> handle E a srv = (Returned, lg4 @ [CallSetResponse r]))) \<or>
   (\<exists>e lg0. handle E a srv = handleError a e lg0)"
proof -
  let ?hr = "HandleRequest a srv"
  obtain r1 c1 lg1 where m: "mount E ?hr [] = (r1, c1, lg1)" by (cases "mount E ?hr []")
  show ?thesis
  proof (cases r1)
    case (Some e)
    with m have "handle E a srv = handleError a e lg1" by (simp add: handle_def)
    then show ?thesis by blast
  next
    case None
    obtain fp lg2 where f: "find_platform E (platforms c1) (getRequestObject srv) lg1 = (fp, lg2)"
      by (cases "find_platform E (platforms c1) (getRequestObject srv) lg1")
    show ?thesis
    proof (cases fp)
      case None2: None
      with m None f have "handle E a srv =
          handleError a (MatchingPlatformNotFoundError (getRequestObject srv)) lg2"
        by (simp add: handle_def)
      then show ?thesis by blast
    next
      case (Some p)
      let ?lg = "lg2 @ [CallCreateJovoInstance (plugin_name p) (Some (plugin_name p))]"
      obtain r2 c2 where j: "createJovoInstance E (plugin_name p)
          (c1\<lparr>hr_platform := Some (plugin_name p)\<rparr>) = (r2, c2)"
        by (cases "createJovoInstance E (plugin_name p) (c1\<lparr>hr_platform := Some (plugin_name p)\<rparr>)")
      show ?thesis
      proof (cases r2)
        case Some2: (Some e)
        with m None f Some j have "handle E a srv = handleError a e ?lg"
          by (simp add: handle_def)
        then show ?thesis by blast
      next
        case None3: None
        obtain r3 c3 lg3 where r: "mc_run E APP_MIDDLEWARES c2 ?lg = (r3, c3, lg3)"
          by (cases "mc_run E APP_MIDDLEWARES c2 ?lg")
        note pipeline = m[unfolded None] f[unfolded Some] j[unfolded None3]
        show ?thesis
        proof (cases r3)
          case Some3: (Some e)
          with handle_after_run[OF pipeline r] have "handle E a srv = handleError a e lg3"
            by simp
          then show ?thesis by blast
        next
          case None4: None
          obtain r4 c4 lg4 where d: "dismount E c3 lg3 = (r4, c4, lg4)"
            by (cases "dismount E c3 lg3")
          note h = handle_after_dismount[OF pipeline r[unfolded None4] d]
          show ?thesis
          proof (cases r4)
            case Some4: (Some e)
            with h have "handle E a srv = handleError a e lg4" by simp
            then show ?thesis by blast
          next
            case None5: None
            show ?thesis
            proof (cases "jovo_response c4")
              case None6: None
              with h None5 have "handle E a srv = (Returned, lg4)" by simp
              with pipeline r None4 d None5 None6 show ?thesis by auto
            next
              case Some6: (Some rsp)
              show ?thesis
              proof (cases "setResponse srv rsp")
                case None7: None
                with h None5 Some6
                have "handle E a srv = (Returned, lg4 @ [CallSetResponse rsp])" by simp
                with pipeline r None4 d None5 Some6 None7 show ?thesis by auto
              next
                case Some7: (Some e)
                with h None5 Some6
                have "handle E a srv = handleError a e (lg4 @ [CallSetResponse rsp])" by simp
                then show ?thesis by blast
              qed
            qed
          qed
        qed
      qed
    qed
  qed
qed


lemma mc_get_removed:
  "set (map fst mc) \<subseteq> set ns \<Longrightarrow> mc_get (mc_remove ns mc) n = []"
  by (induction mc) (auto simp: mc_get_def mc_remove_def)

lemma mc_get_stopped:
  "mc_get (hr_middlewareCollection (stopMiddlewareExecution c)) n = []"
  by (simp add: stopMiddlewareExecution_def mc_names_def mc_get_removed)

lemma mc_run_stopped:
  "mc_run E ns (stopMiddlewareExecution c) lg = (None, stopMiddlewareExecution c, lg)"
  by (induction ns) (simp_all add: mc_get_stopped)

lemma queried_append: "queried (xs @ ys) = queried xs @ queried ys"
  by (induction xs rule: queried.induct) simp_all

lemma queried_map_mount: "queried (map CallMount ps) = []"
  by (induction ps) simp_all

lemma queried_map_dismount: "queried (map CallDismount ps) = []"
  by (induction ps) simp_all



lemma run_hooks_state:
  "run_hooks hook ev ps s lg = (None, s', lg') \<Longrightarrow> s' = foldl (\<lambda>s p. snd (hook p s)) s ps"
proof (induction ps arbitrary: s lg)
  case Nil
  then show ?case by simp
next
  case (Cons p ps)
  obtain r1 s1 where h: "hook p s = (r1, s1)" by (cases "hook p s")
  with Cons.prems have "r1 = None" by (cases r1) simp_all
  with Cons.prems h have "run_hooks hook ev ps s1 (lg @ [ev p]) = (None, s', lg')" by simp
  from Cons.IH[OF this] h show ?case by simp
qed

lemma run_hooks_error:
  "run_hooks hook ev ps s lg = (Some e, s', lg') \<Longrightarrow>
     \<exists>p\<in>set ps. \<exists>s0. hook p s0 = (Some e, s')"
proof (induction ps arbitrary: s lg)
  case Nil
  then show ?case by simp
next
  case (Cons p ps)
  obtain r1 s1 where h: "hook p s = (r1, s1)" by (cases "hook p s")
  show ?case
  proof (cases r1)
    case None
    with Cons.prems h have "run_hooks hook ev ps s1 (lg @ [ev p]) = (Some e, s', lg')" by simp
    from Cons.IH[OF this] show ?thesis by auto
  next
    case (Some e')
    with Cons.prems h have "e' = e" "s1 = s'" by simp_all
    with h Some show ?thesis by auto
  qed
qed


lemma mc_run_written: "mc_run E ns c lg = (r, c', lg') \<Longrightarrow> written lg' = written lg"
  by (drule mc_run_log) (auto simp: written_append)


lemma mount_quiet:
  assumes "mount E c lg = (r, c', lg')"
  shows "written lg' = written lg" and "dismounted lg' = dismounted lg" and "queried lg' = queried lg"
proof -
  from mount_log[OF assms] obtain k where
    "lg' = lg @ map CallMount (take k (map plugin_name (hr_plugins c)))" by blast
  then show "written lg' = written lg" "dismounted lg' = dismounted lg" "queried lg' = queried lg"
    by (simp_all only: written_append dismounted_append queried_append written_map_mount
          dismounted_map_mount queried_map_mount append_Nil2)
qed

lemma dismount_quiet:
  assumes "dismount E c lg = (r, c', lg')"
  shows "written lg' = written lg" and "queried lg' = queried lg"
proof -
  from dismount_log[OF assms] obtain k where
    "lg' = lg @ map CallDismount (take k (map plugin_name (hr_plugins c)))" by blast
  then show "written lg' = written lg" "queried lg' = queried lg"
    by (simp_all only: written_append queried_append written_map_dismount
          queried_map_dismount append_Nil2)
qed

lemma find_platform_quiet:
  assumes "find_platform E ps rq lg = (r, lg')"
  shows "written lg' = written lg" and "dismounted lg' = dismounted lg"
  using assms unfolding find_platform_eq
  by (auto simp only: written_append dismounted_append written_map_query dismounted_map_query
        append_Nil2 prod.inject)


lemma handle_mount_fails:
  "mount E (HandleRequest a srv) [] = (Some e, c1, lg1) \<Longrightarrow> handle E a srv = handleError a e lg1"
  by (simp add: handle_def)

lemma handle_no_match:
  "mount E (HandleRequest a srv) [] = (None, c1, lg1) \<Longrightarrow>
   find_platform E (platforms c1) (getRequestObject srv) lg1 = (None, lg2) \<Longrightarrow>
   handle E a srv = handleError a (MatchingPlatformNotFoundError (getRequestObject srv)) lg2"
  by (simp add: handle_def)

lemma handle_factory_fails:
  "mount E (HandleRequest a srv) [] = (None, c1, lg1) \<Longrightarrow>
   find_platform E (platforms c1) (getRequestObject srv) lg1 = (Some p, lg2) \<Longrightarrow>
   createJovoInstance E (plugin_name p) (c1\<lparr>hr_platform := Some (plugin_name p)\<rparr>) = (Some e, c2) \<Longrightarrow>
   handle E a srv =
     handleError a e (lg2 @ [CallCreateJovoInstance (plugin_name p) (Some (plugin_name p))])"
  by (simp add: handle_def)

subsection \<open>The stage catalog\<close>

text \<open>
  Claim C3. The catalog \<open>APP_MIDDLEWARES\<close> consists of exactly the fifteen stage names
  \<open>request.start\<close>, \<open>request\<close>, \<open>request.end\<close>, \<open>interpretation.start\<close>,
  \<open>interpretation.asr\<close>, \<open>interpretation.nlu\<close>, \<open>interpretation.end\<close>,
  \<open>dialogue.start\<close>, \<open>dialogue.router\<close>, \<open>dialogue.logic\<close>, \<open>dialogue.end\<close>,
  \<open>response.start\<close>, \<open>response.output\<close>, \<open>response.tts\<close>, \<open>response.end\<close>, in this
  order and without repetition; the middleware collection that the App initializes has
  exactly these stages; and once \<open>handle\<close> has mounted the plugins, bound a platform and
  obtained the state object, it runs the collection on this full list of stages: every
  event of that run is part of what \<open>handle\<close> does.
\<close>

theorem stage_catalog:
  "APP_MIDDLEWARES =
     [''request.start'', ''request'', ''request.end'',
      ''interpretation.start'', ''interpretation.asr'', ''interpretation.nlu'',
      ''interpretation.end'',
      ''dialogue.start'', ''dialogue.router'', ''dialogue.logic'', ''dialogue.end'',
      ''response.start'', ''response.output'', ''response.tts'', ''response.end''] \<and>
   length APP_MIDDLEWARES = 15 \<and> distinct APP_MIDDLEWARES \<and>
   mc_names initializeMiddlewareCollection = APP_MIDDLEWARES \<and>
   (\<forall>E a srv c1 lg1 p lg2 c2.
      mount E (HandleRequest a srv) [] = (None, c1, lg1) \<and>
      find_platform E (platforms c1) (getRequestObject srv) lg1 = (Some p, lg2) \<and>
      createJovoInstance E (plugin_name p) (c1\<lparr>hr_platform := Some (plugin_name p)\<rparr>) = (None, c2)
      \<longrightarrow> prefix
            (snd (snd (mc_run E
               [''request.start'', ''request'', ''request.end'',
                ''interpretation.start'', ''interpretation.asr'', ''interpretation.nlu'',
                ''interpretation.end'',
                ''dialogue.start'', ''dialogue.router'', ''dialogue.logic'', ''dialogue.end'',
                ''response.start'', ''response.output'', ''response.tts'', ''response.end'']
               c2 (lg2 @ [CallCreateJovoInstance (plugin_name p) (Some (plugin_name p))]))))
            (snd (handle E a (srv :: server))))"
proof -
  have run: "prefix (snd (snd (mc_run E APP_MIDDLEWARES c2
               (lg2 @ [CallCreateJovoInstance (plugin_name p) (Some (plugin_name p))]))))
             (snd (handle E a srv))"
    if m: "mount E (HandleRequest a srv) [] = (None, c1, lg1)"
      and f: "find_platform E (platforms c1) (getRequestObject srv) lg1 = (Some p, lg2)"
      and j: "createJovoInstance E (plugin_name p) (c1\<lparr>hr_platform := Some (plugin_name p)\<rparr>) = (None, c2)"
    for E :: "'a env" and a srv c1 lg1 p lg2 c2
  proof -
    obtain r3 c3 lg3 where r: "mc_run E APP_MIDDLEWARES c2
        (lg2 @ [CallCreateJovoInstance (plugin_name p) (Some (plugin_name p))]) = (r3, c3, lg3)"
      by (cases "mc_run E APP_MIDDLEWARES c2
        (lg2 @ [CallCreateJovoInstance (plugin_name p) (Some (plugin_name p))])")
    show ?thesis
    proof (cases r3)
      case (Some e)
      with handle_after_run[OF m f j r] r show ?thesis by (simp add: handleError_prefix)
    next
      case None
      obtain r4 c4 lg4 where d: "dismount E c3 lg3 = (r4, c4, lg4)" by (cases "dismount E c3 lg3")
      from dismount_log[OF d] have "prefix lg3 lg4" by auto
      with handle_log_after_dismount[OF m f j r[unfolded None] d] r show ?thesis by auto
    qed
  qed
  show ?thesis
    using run by (simp add: APP_MIDDLEWARES_def initializeMiddlewareCollection_def
        MiddlewareCollection_def mc_names_def comp_def)
qed

theorem stage_catalog_witness:
  "mount env0 (HandleRequest app0 server0) [] =
     (None, HandleRequest app0 server0,
      [CallMount ''RouterPlugin'', CallMount ''AlexaPlatform'', CallMount ''CorePlatform'']) \<and>
   find_platform env0 (platforms (HandleRequest app0 server0)) (getRequestObject server0)
      [CallMount ''RouterPlugin'', CallMount ''AlexaPlatform'', CallMount ''CorePlatform''] =
     (Some \<lparr>plugin_name = ''AlexaPlatform'', is_platform = True\<rparr>,
      [CallMount ''RouterPlugin'', CallMount ''AlexaPlatform'', CallMount ''CorePlatform'',
       CallIsRequestRelated ''AlexaPlatform'']) \<and>
   createJovoInstance env0 ''AlexaPlatform''
      ((HandleRequest app0 server0)\<lparr>hr_platform := Some ''AlexaPlatform''\<rparr>) =
     (None, (HandleRequest app0 server0)\<lparr>hr_platform := Some ''AlexaPlatform''\<rparr>) \<and>
   prefix
     (snd (snd (mc_run env0
        [''request.start'', ''request'', ''request.end'',
         ''interpretation.start'', ''interpretation.asr'', ''interpretation.nlu'',
         ''interpretation.end'',
         ''dialogue.start'', ''dialogue.router'', ''dialogue.logic'', ''dialogue.end'',
         ''response.start'', ''response.output'', ''response.tts'', ''response.end'']
        ((HandleRequest app0 server0)\<lparr>hr_platform := Some ''AlexaPlatform''\<rparr>)
        [CallMount ''RouterPlugin'', CallMount ''AlexaPlatform'', CallMount ''CorePlatform'',
         CallIsRequestRelated ''AlexaPlatform'',
         CallCreateJovoInstance ''AlexaPlatform'' (Some ''AlexaPlatform'')])))
     (snd (handle env0 app0 server0)) \<and>
   handlers_called (snd (handle env0 app0 server0)) =
     [(''dialogue.router'', 1), (''dialogue.logic'', 2), (''response.output'', 3)]"
proof -
  have m: "mount env0 (HandleRequest app0 server0) [] =
     (None, HandleRequest app0 server0,
      [CallMount ''RouterPlugin'', CallMount ''AlexaPlatform'', CallMount ''CorePlatform''])"
    by code_simp
  have f: "find_platform env0 (platforms (HandleRequest app0 server0)) (getRequestObject server0)
      [CallMount ''RouterPlugin'', CallMount ''AlexaPlatform'', CallMount ''CorePlatform''] =
     (Some \<lparr>plugin_name = ''AlexaPlatform'', is_platform = True\<rparr>,
      [CallMount ''RouterPlugin'', CallMount ''AlexaPlatform'', CallMount ''CorePlatform'',
       CallIsRequestRelated ''AlexaPlatform''])"
    by code_simp
  have j: "createJovoInstance env0 ''AlexaPlatform''
      ((HandleRequest app0 server0)\<lparr>hr_platform := Some ''AlexaPlatform''\<rparr>) =
     (None, (HandleRequest app0 server0)\<lparr>hr_platform := Some ''AlexaPlatform''\<rparr>)"
    by (simp add: env0_def)
  have h: "handlers_called (snd (handle env0 app0 server0)) =
     [(''dialogue.router'', 1), (''dialogue.logic'', 2), (''response.output'', 3)]"
    by code_simp
  from stage_catalog[where 'a = unit] m f j
  have "prefix
     (snd (snd (mc_run env0
        [''request.start'', ''request'', ''request.end'',
         ''interpretation.start'', ''interpretation.asr'', ''interpretation.nlu'',
         ''interpretation.end'',
         ''dialogue.start'', ''dialogue.router'', ''dialogue.logic'', ''dialogue.end'',
         ''response.start'', ''response.output'', ''response.tts'', ''response.end'']
        ((HandleRequest app0 server0)\<lparr>hr_platform := Some ''AlexaPlatform''\<rparr>)
        ([CallMount ''RouterPlugin'', CallMount ''AlexaPlatform'', CallMount ''CorePlatform'',
         CallIsRequestRelated ''AlexaPlatform''] @
         [CallCreateJovoInstance ''AlexaPlatform'' (Some ''AlexaPlatform'')]))))
     (snd (handle env0 app0 server0))"
    by (metis plugin.select_convs(1))
  with m f j h show ?thesis by simp
qed

subsection \<open>Initialization\<close>

lemma initialize_completes:
  assumes "\<not> initialized a"
    and "i18n_initialize E (world a) = (None, w1)"
    and "initializePlugins E (plugins a) w1 (lg @ [CallI18nInitialize]) = (None, w2, lg2)"
  shows "initialize E a lg =
           (Returned, a\<lparr>world := w2, initialized := True\<rparr>,
            lg @ CallI18nInitialize # map CallPluginInitialize (map plugin_name (plugins a)))"
    and "w2 = foldl (\<lambda>w p. snd (plugin_initialize E (plugin_name p) w)) w1 (plugins a)"
proof -
  from assms(3) have "lg2 = (lg @ [CallI18nInitialize]) @
      map CallPluginInitialize (map plugin_name (plugins a))"
    unfolding initializePlugins_def by (rule run_hooks_complete)
  with assms show "initialize E a lg =
           (Returned, a\<lparr>world := w2, initialized := True\<rparr>,
            lg @ CallI18nInitialize # map CallPluginInitialize (map plugin_name (plugins a)))"
    by (simp add: initialize_def)
  from assms(3) have "w2 = foldl (\<lambda>s p. snd (plugin_initialize E p s)) w1 (map plugin_name (plugins a))"
    unfolding initializePlugins_def by (rule run_hooks_state)
  then show "w2 = foldl (\<lambda>w p. snd (plugin_initialize E (plugin_name p) w)) w1 (plugins a)"
    by (simp add: foldl_map)
qed

lemma initialize_fails:
  assumes "\<not> initialized a"
    and "i18n_initialize E (world a) = (Some e, w1) \<and> lgf = lg @ [CallI18nInitialize] \<or>
         (\<exists>w0. i18n_initialize E (world a) = (None, w0) \<and>
               initializePlugins E (plugins a) w0 (lg @ [CallI18nInitialize]) = (Some e, w1, lgf))"
  shows "initialize E a lg =
           (fst (handleError a e lgf), a\<lparr>world := w1\<rparr>, snd (handleError a e lgf))"
  using assms by (auto simp: initialize_def split_beta)

text \<open>
  Claim C7. \<open>initialize\<close> is idempotent once it has succeeded. A call on an App that is
  not yet initialized leaves it initialized exactly when the localization setup and the
  initialize hook of every plugin complete. In that case the call returns normally, it has
  made exactly one call to the localization setup followed by exactly one call to the
  initialize hook of every registered plugin, in registration order, the state is the one
  these calls produce one after the other, and the flag is set; every later call, in
  whatever environment, makes no call at all, changes nothing and returns normally.
\<close>

theorem initialize_idempotent:
  assumes "\<not> initialized a"
    and "initialize E a lg = (r, a', lg')"
  shows "(initialized a' \<longleftrightarrow>
            (\<exists>w1 w2 lg2. i18n_initialize E (world a) = (None, w1) \<and>
               initializePlugins E (plugins a) w1 (lg @ [CallI18nInitialize]) = (None, w2, lg2))) \<and>
         (initialized a' \<longrightarrow>
            r = Returned \<and>
            lg' = lg @ CallI18nInitialize # map CallPluginInitialize (map plugin_name (plugins a)) \<and>
            a' = a\<lparr>world := foldl (\<lambda>w p. snd (plugin_initialize E (plugin_name p) w))
                               (snd (i18n_initialize E (world a))) (plugins a),
                    initialized := True\<rparr> \<and>
            (\<forall>E2 lg2. initialize E2 a' lg2 = (Returned, a', lg2)))"
proof -
  obtain r1 w1 where i: "i18n_initialize E (world a) = (r1, w1)"
    by (cases "i18n_initialize E (world a)")
  obtain r2 w2 lg2 where p:
    "initializePlugins E (plugins a) w1 (lg @ [CallI18nInitialize]) = (r2, w2, lg2)"
    by (cases "initializePlugins E (plugins a) w1 (lg @ [CallI18nInitialize])")
  show ?thesis
  proof (cases "r1 = None \<and> r2 = None")
    case True
    with i p have i': "i18n_initialize E (world a) = (None, w1)"
      and p': "initializePlugins E (plugins a) w1 (lg @ [CallI18nInitialize]) = (None, w2, lg2)"
      by simp_all
    note c = initialize_completes[OF assms(1) i' p']
    from c(1) assms(2) have r: "r = Returned"
      and a': "a' = a\<lparr>world := w2, initialized := True\<rparr>"
      and lg': "lg' = lg @ CallI18nInitialize # map CallPluginInitialize (map plugin_name (plugins a))"
      by simp_all
    from a' have ini: "initialized a'" by simp
    then have "initialize E2 a' lg3 = (Returned, a', lg3)" for E2 lg3
      by (simp add: initialize_def)
    moreover from c(2) i' a'
    have "a' = a\<lparr>world := foldl (\<lambda>w p. snd (plugin_initialize E (plugin_name p) w))
                               (snd (i18n_initialize E (world a))) (plugins a),
                    initialized := True\<rparr>"
      by simp
    ultimately show ?thesis using r lg' ini i' p' by blast
  next
    case False
    then obtain e wf lgf where
      "i18n_initialize E (world a) = (Some e, wf) \<and> lgf = lg @ [CallI18nInitialize] \<or>
         (\<exists>w0. i18n_initialize E (world a) = (None, w0) \<and>
               initializePlugins E (plugins a) w0 (lg @ [CallI18nInitialize]) = (Some e, wf, lgf))"
      using i p by (cases r1; cases r2) auto
    from initialize_fails[OF assms(1) this] assms(2) have "a' = a\<lparr>world := wf\<rparr>" by simp
    with assms(1) have n: "\<not> initialized a'" by simp
    from False i p have "\<not> (\<exists>w1 w2 lg2. i18n_initialize E (world a) = (None, w1) \<and>
               initializePlugins E (plugins a) w1 (lg @ [CallI18nInitialize]) = (None, w2, lg2))"
      by auto
    with n show ?thesis by blast
  qed
qed

theorem initialize_idempotent_witness:
  "\<not> initialized app0 \<and>
   initialize env0 app0 [] =
     (Returned, app0\<lparr>initialized := True\<rparr>,
      [CallI18nInitialize, CallPluginInitialize ''RouterPlugin'',
       CallPluginInitialize ''AlexaPlatform'', CallPluginInitialize ''CorePlatform'']) \<and>
   initialized (app0\<lparr>initialized := True\<rparr>) \<and>
   initialize env0 (app0\<lparr>initialized := True\<rparr>)
     [CallI18nInitialize, CallPluginInitialize ''RouterPlugin'',
      CallPluginInitialize ''AlexaPlatform'', CallPluginInitialize ''CorePlatform''] =
     (Returned, app0\<lparr>initialized := True\<rparr>,
      [CallI18nInitialize, CallPluginInitialize ''RouterPlugin'',
       CallPluginInitialize ''AlexaPlatform'', CallPluginInitialize ''CorePlatform''])"
proof -
  have n: "\<not> initialized app0" by (simp add: app0_def)
  have i: "initialize env0 app0 [] =
     (Returned, app0\<lparr>initialized := True\<rparr>,
      [CallI18nInitialize, CallPluginInitialize ''RouterPlugin'',
       CallPluginInitialize ''AlexaPlatform'', CallPluginInitialize ''CorePlatform''])"
    by (simp add: initialize_def initializePlugins_def app0_def env0_def)
  have t: "initialized (app0\<lparr>initialized := True\<rparr>)" by simp
  from initialize_idempotent[OF n i] t
  have "\<forall>E2 lg2. initialize E2 (app0\<lparr>initialized := True\<rparr>) lg2 =
      (Returned, app0\<lparr>initialized := True\<rparr>, lg2)"
    by blast
  with n i t show ?thesis by simp
qed

subsection \<open>The error sink\<close>

text \<open>
  Claim C8. \<open>handleError\<close> invokes the callback registered through \<open>onError\<close> (the
  one registered last, when there were several) with the error and returns what it returns;
  without a callback it throws the error to its caller. Every failure inside
  \<open>initialize\<close> (of the localization setup, of a plugin's initialize hook) and inside
  \<open>handle\<close> (of a mount hook, of the platform search, of the adapter's factory, of a
  stage handler, of a dismount hook, of the transport's write) ends the call with exactly
  the result of \<open>handleError\<close> for that very error, on the events up to the failure; when
  nothing fails the call returns normally.
\<close>

theorem handleError_single_sink:
  "handleError (onError cb a) e lg = (cb e, lg @ [CallErrorCallback e]) \<and>
   handleError (onError cb (onError cb' a)) e lg = (cb e, lg @ [CallErrorCallback e]) \<and>
   handleError (a\<lparr>errorCallback := None\<rparr>) e lg = (Threw e, lg) \<and>
   (\<not> initialized b \<longrightarrow>
      (\<forall>e1 w1. i18n_initialize E (world b) = (Some e1, w1) \<longrightarrow>
         initialize E b lg =
           (fst (handleError b e1 (lg @ [CallI18nInitialize])), b\<lparr>world := w1\<rparr>,
            snd (handleError b e1 (lg @ [CallI18nInitialize])))) \<and>
      (\<forall>w1 e2 w2 lg2.
         i18n_initialize E (world b) = (None, w1) \<and>
         initializePlugins E (plugins b) w1 (lg @ [CallI18nInitialize]) = (Some e2, w2, lg2) \<longrightarrow>
         initialize E b lg =
           (fst (handleError b e2 lg2), b\<lparr>world := w2\<rparr>, snd (handleError b e2 lg2))) \<and>
      (\<forall>w1 w2 lg2.
         i18n_initialize E (world b) = (None, w1) \<and>
         initializePlugins E (plugins b) w1 (lg @ [CallI18nInitialize]) = (None, w2, lg2) \<longrightarrow>
         initialize E b lg = (Returned, b\<lparr>world := w2, initialized := True\<rparr>, lg2))) \<and>
   (\<forall>e1 c1 lg1.
      mount E (HandleRequest b srv) [] = (Some e1, c1, lg1) \<longrightarrow>
      handle E b srv = handleError b e1 lg1) \<and>
   (\<forall>c1 lg1. mount E (HandleRequest b srv) [] = (None, c1, lg1) \<longrightarrow>
      (\<forall>lg2. find_platform E (platforms c1) (getRequestObject srv) lg1 = (None, lg2) \<longrightarrow>
         handle E b srv =
           handleError b (MatchingPlatformNotFoundError (getRequestObject srv)) lg2) \<and>
      (\<forall>p lg2. find_platform E (platforms c1) (getRequestObject srv) lg1 = (Some p, lg2) \<longrightarrow>
         (\<forall>e2 c2.
            createJovoInstance E (plugin_name p) (c1\<lparr>hr_platform := Some (plugin_name p)\<rparr>) =
              (Some e2, c2) \<longrightarrow>
            handle E b srv =
              handleError b e2
                (lg2 @ [CallCreateJovoInstance (plugin_name p) (Some (plugin_name p))])) \<and>
         (\<forall>c2.
            createJovoInstance E (plugin_name p) (c1\<lparr>hr_platform := Some (plugin_name p)\<rparr>) =
              (None, c2) \<longrightarrow>
            (\<forall>e3 c3 lg3.
               mc_run E APP_MIDDLEWARES c2
                 (lg2 @ [CallCreateJovoInstance (plugin_name p) (Some (plugin_name p))]) =
                 (Some e3, c3, lg3) \<longrightarrow>
               handle E b srv = handleError b e3 lg3) \<and>
            (\<forall>c3 lg3.
               mc_run E APP_MIDDLEWARES c2
                 (lg2 @ [CallCreateJovoInstance (plugin_name p) (Some (plugin_name p))]) =
                 (None, c3, lg3) \<longrightarrow>
               (\<forall>e4 c4 lg4. dismount E c3 lg3 = (Some e4, c4, lg4) \<longrightarrow>
                  handle E b srv = handleError b e4 lg4) \<and>
               (\<forall>c4 lg4. dismount E c3 lg3 = (None, c4, lg4) \<longrightarrow>
                  (jovo_response c4 = None \<longrightarrow> handle E b srv = (Returned, lg4)) \<and>
                  (\<forall>r. jovo_response c4 = Some r \<longrightarrow>
                     (\<forall>e5. setResponse srv r = Some e5 \<longrightarrow>
                        handle E b srv = handleError b e5 (lg4 @ [CallSetResponse r])) \<and>
                     (setResponse srv r = None \<longrightarrow>
                        handle E b srv = (Returned, lg4 @ [CallSetResponse r]))))))))"
proof -
  have 1: "handleError (onError cb a) e lg = (cb e, lg @ [CallErrorCallback e])"
    "handleError (onError cb (onError cb' a)) e lg = (cb e, lg @ [CallErrorCallback e])"
    "handleError (a\<lparr>errorCallback := None\<rparr>) e lg = (Threw e, lg)"
    by (simp_all add: handleError_def onError_def)
  have 2: "initialize E b lg =
           (fst (handleError b e1 (lg @ [CallI18nInitialize])), b\<lparr>world := w1\<rparr>,
            snd (handleError b e1 (lg @ [CallI18nInitialize])))"
    if "\<not> initialized b" "i18n_initialize E (world b) = (Some e1, w1)" for e1 w1
    using that by (intro initialize_fails) simp_all
  have 3: "initialize E b lg =
           (fst (handleError b e2 lg2), b\<lparr>world := w2\<rparr>, snd (handleError b e2 lg2))"
    if "\<not> initialized b" "i18n_initialize E (world b) = (None, w1)"
      "initializePlugins E (plugins b) w1 (lg @ [CallI18nInitialize]) = (Some e2, w2, lg2)"
    for w1 e2 w2 lg2
    using that by (intro initialize_fails) auto
  have 4: "initialize E b lg = (Returned, b\<lparr>world := w2, initialized := True\<rparr>, lg2)"
    if "\<not> initialized b" "i18n_initialize E (world b) = (None, w1)"
      "initializePlugins E (plugins b) w1 (lg @ [CallI18nInitialize]) = (None, w2, lg2)"
    for w1 w2 lg2
    using that by (simp add: initialize_def)
  have 5: "handle E b srv = handleError b e1 lg1"
    if "mount E (HandleRequest b srv) [] = (Some e1, c1, lg1)" for e1 c1 lg1
    using that by (rule handle_mount_fails)
  have 6: "handle E b srv =
           handleError b (MatchingPlatformNotFoundError (getRequestObject srv)) lg2"
    if "mount E (HandleRequest b srv) [] = (None, c1, lg1)"
      "find_platform E (platforms c1) (getRequestObject srv) lg1 = (None, lg2)" for c1 lg1 lg2
    using that by (rule handle_no_match)
  have 7: "handle E b srv =
              handleError b e2
                (lg2 @ [CallCreateJovoInstance (plugin_name p) (Some (plugin_name p))])"
    if "mount E (HandleRequest b srv) [] = (None, c1, lg1)"
      "find_platform E (platforms c1) (getRequestObject srv) lg1 = (Some p, lg2)"
      "createJovoInstance E (plugin_name p) (c1\<lparr>hr_platform := Some (plugin_name p)\<rparr>) =
              (Some e2, c2)" for c1 lg1 p lg2 e2 c2
    using that by (rule handle_factory_fails)
  have 8: "handle E b srv = handleError b e3 lg3"
    if "mount E (HandleRequest b srv) [] = (None, c1, lg1)"
      "find_platform E (platforms c1) (getRequestObject srv) lg1 = (Some p, lg2)"
      "createJovoInstance E (plugin_name p) (c1\<lparr>hr_platform := Some (plugin_name p)\<rparr>) =
              (None, c2)"
      "mc_run E APP_MIDDLEWARES c2
                 (lg2 @ [CallCreateJovoInstance (plugin_name p) (Some (plugin_name p))]) =
                 (Some e3, c3, lg3)" for c1 lg1 p lg2 c2 e3 c3 lg3
    using handle_after_run[OF that] by simp
  have 9: "handle E b srv =
     (case r4 of
        Some e \<Rightarrow> handleError b e lg4
      | None \<Rightarrow>
          (case jovo_response c4 of
             None \<Rightarrow> (Returned, lg4)
           | Some r \<Rightarrow>
               (case setResponse srv r of
                  Some e \<Rightarrow> handleError b e (lg4 @ [CallSetResponse r])
                | None \<Rightarrow> (Returned, lg4 @ [CallSetResponse r]))))"
    if "mount E (HandleRequest b srv) [] = (None, c1, lg1)"
      "find_platform E (platforms c1) (getRequestObject srv) lg1 = (Some p, lg2)"
      "createJovoInstance E (plugin_name p) (c1\<lparr>hr_platform := Some (plugin_name p)\<rparr>) =
              (None, c2)"
      "mc_run E APP_MIDDLEWARES c2
                 (lg2 @ [CallCreateJovoInstance (plugin_name p) (Some (plugin_name p))]) =
                 (None, c3, lg3)"
      "dismount E c3 lg3 = (r4, c4, lg4)" for c1 lg1 p lg2 c2 c3 lg3 r4 c4 lg4
    using that by (rule handle_after_dismount)
  show ?thesis
    apply (intro conjI allI impI; (elim conjE)?)
    subgoal by (rule 1)
    subgoal by (rule 1)
    subgoal by (rule 1)
    subgoal by (rule 2)
    subgoal by (rule 3; assumption)
    subgoal by (rule 4; assumption)
    subgoal by (rule 5)
    subgoal by (rule 6)
    subgoal by (rule 7)
    subgoal by (rule 8)
    subgoal using 9 by fastforce
    subgoal using 9 by fastforce
    subgoal using 9 by fastforce
    subgoal using 9 by fastforce
    done
qed

theorem handleError_single_sink_witness:
  "mount (env0\<lparr>plugin_mount :=
            (\<lambda>p c. if p = ''AlexaPlatform'' then (Some (Thrown ''mount failed''), c) else (None, c))\<rparr>)
      (HandleRequest (onError (\<lambda>e. Returned) app0) server0) [] =
     (Some (Thrown ''mount failed''), HandleRequest (onError (\<lambda>e. Returned) app0) server0,
      [CallMount ''RouterPlugin'', CallMount ''AlexaPlatform'']) \<and>
   handle (env0\<lparr>plugin_mount :=
            (\<lambda>p c. if p = ''AlexaPlatform'' then (Some (Thrown ''mount failed''), c) else (None, c))\<rparr>)
      (onError (\<lambda>e. Returned) app0) server0 =
     (Returned,
      [CallMount ''RouterPlugin'', CallMount ''AlexaPlatform'',
       CallErrorCallback (Thrown ''mount failed'')]) \<and>
   \<not> initialized app0 \<and>
   i18n_initialize (env0\<lparr>i18n_initialize := (\<lambda>w. (Some (Thrown ''i18n failed''), w))\<rparr>)
      (world app0) = (Some (Thrown ''i18n failed''), ()) \<and>
   initialize (env0\<lparr>i18n_initialize := (\<lambda>w. (Some (Thrown ''i18n failed''), w))\<rparr>) app0 [] =
     (Threw (Thrown ''i18n failed''), app0, [CallI18nInitialize])"
proof -
  let ?M = "env0\<lparr>plugin_mount :=
            (\<lambda>p c. if p = ''AlexaPlatform'' then (Some (Thrown ''mount failed''), c) else (None, c))\<rparr>"
  let ?I = "env0\<lparr>i18n_initialize := (\<lambda>w. (Some (Thrown ''i18n failed''), w))\<rparr>"
  let ?a = "onError (\<lambda>e. Returned) app0"
  have m: "mount ?M (HandleRequest ?a server0) [] =
     (Some (Thrown ''mount failed''), HandleRequest ?a server0,
      [CallMount ''RouterPlugin'', CallMount ''AlexaPlatform''])"
    by code_simp
  have n: "\<not> initialized app0" by (simp add: app0_def)
  have i: "i18n_initialize ?I (world app0) = (Some (Thrown ''i18n failed''), ())" by simp
  have cb: "errorCallback app0 = None" by (simp add: app0_def)
  have w: "app0\<lparr>world := ()\<rparr> = app0" by (simp add: app0_def)
  note T1 = handleError_single_sink[where cb = "\<lambda>e. Returned" and cb' = "\<lambda>e. Returned"
      and a = app0 and e = "Thrown ''mount failed''"
      and lg = "[CallMount ''RouterPlugin'', CallMount ''AlexaPlatform'']"
      and b = ?a and E = ?M and srv = server0]
  from T1[THEN conjunct1]
  have 2: "handleError ?a (Thrown ''mount failed'')
        [CallMount ''RouterPlugin'', CallMount ''AlexaPlatform''] =
      (Returned, [CallMount ''RouterPlugin'', CallMount ''AlexaPlatform''] @
         [CallErrorCallback (Thrown ''mount failed'')])" .
  from T1[THEN conjunct2, THEN conjunct2, THEN conjunct2, THEN conjunct2, THEN conjunct1] m
  have 1: "handle ?M ?a server0 =
      handleError ?a (Thrown ''mount failed'') [CallMount ''RouterPlugin'', CallMount ''AlexaPlatform'']"
    by blast
  note T2 = handleError_single_sink[where cb = "\<lambda>e. Returned" and cb' = "\<lambda>e. Returned"
      and a = app0 and e = "Thrown ''mount failed''" and b = app0 and E = ?I and lg = "[]"
      and srv = server0]
  from T2[THEN conjunct2, THEN conjunct2, THEN conjunct2, THEN conjunct1] n i
  have "initialize ?I app0 [] =
      (fst (handleError app0 (Thrown ''i18n failed'') ([] @ [CallI18nInitialize])), app0\<lparr>world := ()\<rparr>,
       snd (handleError app0 (Thrown ''i18n failed'') ([] @ [CallI18nInitialize])))"
    by blast
  then have 3: "initialize ?I app0 [] = (Threw (Thrown ''i18n failed''), app0, [CallI18nInitialize])"
    by (simp add: handleError_def cb w)
  from m 1 2 n i 3 show ?thesis by simp
qed

text \<open>
  Claim C10. When the localization setup or the initialization of a plugin throws, the
  error goes to \<open>handleError\<close> and the App stays uninitialized; a later call of
  \<open>initialize\<close> is then no no-op: it always calls the localization setup again, and when
  that and the plugin initialization now complete, it has called the setup and every
  plugin's hook once more and the App is initialized.
\<close>

theorem initialize_failure_is_retryable:
  assumes "\<not> initialized a"
    and "i18n_initialize E (world a) = (Some e, w1) \<and> lgf = lg @ [CallI18nInitialize] \<or>
         (\<exists>w0. i18n_initialize E (world a) = (None, w0) \<and>
               initializePlugins E (plugins a) w0 (lg @ [CallI18nInitialize]) = (Some e, w1, lgf))"
  shows "initialize E a lg =
           (fst (handleError a e lgf), a\<lparr>world := w1\<rparr>, snd (handleError a e lgf)) \<and>
         \<not> initialized (a\<lparr>world := w1\<rparr>) \<and>
         (\<forall>E2 lg2. prefix (lg2 @ [CallI18nInitialize])
                     (snd (snd (initialize E2 (a\<lparr>world := w1\<rparr>) lg2)))) \<and>
         (\<forall>E2 lg2 w2 w3 lg3.
             i18n_initialize E2 w1 = (None, w2) \<and>
             initializePlugins E2 (plugins a) w2 (lg2 @ [CallI18nInitialize]) = (None, w3, lg3)
             \<longrightarrow> initialize E2 (a\<lparr>world := w1\<rparr>) lg2 =
                   (Returned, a\<lparr>world := w3, initialized := True\<rparr>,
                    lg2 @ CallI18nInitialize #
                      map CallPluginInitialize (map plugin_name (plugins a))))"
proof -
  from assms have 1: "initialize E a lg =
      (fst (handleError a e lgf), a\<lparr>world := w1\<rparr>, snd (handleError a e lgf))"
    by (auto simp: initialize_def split_beta)
  from assms(1) have 2: "\<not> initialized (a\<lparr>world := w1\<rparr>)" by simp
  have 3: "prefix (lg2 @ [CallI18nInitialize]) (snd (snd (initialize E2 (a\<lparr>world := w1\<rparr>) lg2)))"
    for E2 :: "'a env" and lg2
    using initialize_cases[of E2 "a\<lparr>world := w1\<rparr>" lg2] 2
    by (auto intro: prefix_order.trans[OF _ handleError_prefix])
  have 4: "initialize E2 (a\<lparr>world := w1\<rparr>) lg2 =
      (Returned, a\<lparr>world := w3, initialized := True\<rparr>,
       lg2 @ CallI18nInitialize # map CallPluginInitialize (map plugin_name (plugins a)))"
    if "i18n_initialize E2 w1 = (None, w2)"
      and "initializePlugins E2 (plugins a) w2 (lg2 @ [CallI18nInitialize]) = (None, w3, lg3)"
    for E2 :: "'a env" and lg2 w2 w3 lg3
  proof -
    from that(2) have "lg3 = (lg2 @ [CallI18nInitialize]) @
        map CallPluginInitialize (map plugin_name (plugins a))"
      unfolding initializePlugins_def by (rule run_hooks_complete)
    with that assms(1) show ?thesis by (simp add: initialize_def)
  qed
  from 1 2 3 4 show ?thesis by blast
qed


theorem initialize_failure_is_retryable_witness:
  "\<not> initialized app0 \<and>
   i18n_initialize (env0\<lparr>i18n_initialize := (\<lambda>w. (Some (Thrown ''i18n failed''), w))\<rparr>)
      (world app0) = (Some (Thrown ''i18n failed''), ()) \<and>
   initialize (env0\<lparr>i18n_initialize := (\<lambda>w. (Some (Thrown ''i18n failed''), w))\<rparr>) app0 [] =
     (Threw (Thrown ''i18n failed''), app0, [CallI18nInitialize]) \<and>
   initialize env0 app0 [CallI18nInitialize] =
     (Returned, app0\<lparr>initialized := True\<rparr>,
      [CallI18nInitialize, CallI18nInitialize, CallPluginInitialize ''RouterPlugin'',
       CallPluginInitialize ''AlexaPlatform'', CallPluginInitialize ''CorePlatform''])"
proof -
  let ?E = "env0\<lparr>i18n_initialize := (\<lambda>w. (Some (Thrown ''i18n failed''), w))\<rparr>"
  have n: "\<not> initialized app0" by (simp add: app0_def)
  have f: "i18n_initialize ?E (world app0) = (Some (Thrown ''i18n failed''), ())" by simp
  have p: "plugins app0 =
      [\<lparr>plugin_name = ''RouterPlugin'', is_platform = False\<rparr>,
       \<lparr>plugin_name = ''AlexaPlatform'', is_platform = True\<rparr>,
       \<lparr>plugin_name = ''CorePlatform'', is_platform = True\<rparr>]"
    "errorCallback app0 = None"
    by (simp_all add: app0_def)
  have i: "i18n_initialize env0 () = (None, ())" by (simp add: env0_def)
  have j: "initializePlugins env0 (plugins app0) () ([CallI18nInitialize] @ [CallI18nInitialize]) =
     (None, (), [CallI18nInitialize, CallI18nInitialize, CallPluginInitialize ''RouterPlugin'',
       CallPluginInitialize ''AlexaPlatform'', CallPluginInitialize ''CorePlatform''])"
    by (simp add: initializePlugins_def p env0_def)
  from initialize_failure_is_retryable[of app0 ?E "Thrown ''i18n failed''" "()"
      "[] @ [CallI18nInitialize]" "[]"] n f
  have "initialize ?E app0 [] =
          (fst (handleError app0 (Thrown ''i18n failed'') ([] @ [CallI18nInitialize])), app0\<lparr>world := ()\<rparr>,
           snd (handleError app0 (Thrown ''i18n failed'') ([] @ [CallI18nInitialize])))"
    and "\<forall>E2 lg2 w2 w3 lg3.
             i18n_initialize E2 () = (None, w2) \<and>
             initializePlugins E2 (plugins app0) w2 (lg2 @ [CallI18nInitialize]) = (None, w3, lg3)
             \<longrightarrow> initialize E2 (app0\<lparr>world := ()\<rparr>) lg2 =
                   (Returned, app0\<lparr>world := w3, initialized := True\<rparr>,
                    lg2 @ CallI18nInitialize #
                      map CallPluginInitialize (map plugin_name (plugins app0)))"
    by blast+
  note A = this(1) and B = this(2)
  from B i j have "initialize env0 (app0\<lparr>world := ()\<rparr>) [CallI18nInitialize] =
      (Returned, app0\<lparr>world := (), initialized := True\<rparr>,
       [CallI18nInitialize] @ CallI18nInitialize #
         map CallPluginInitialize (map plugin_name (plugins app0)))"
    by blast
  moreover have "app0\<lparr>world := ()\<rparr> = app0" by (simp add: app0_def)
  ultimately show ?thesis using A n f by (simp add: handleError_def p)
qed

subsection \<open>Platform matching\<close>

lemma handle_after_match:
  assumes m: "mount E (HandleRequest a srv) [] = (None, c1, lg1)"
    and f: "find_platform E (platforms c1) (getRequestObject srv) lg1 = (Some p, lg2)"
  shows "prefix (lg2 @ [CallCreateJovoInstance (plugin_name p) (Some (plugin_name p))])
           (snd (handle E a srv))"
proof -
  let ?lg = "lg2 @ [CallCreateJovoInstance (plugin_name p) (Some (plugin_name p))]"
  obtain r2 c2 where j: "createJovoInstance E (plugin_name p)
      (c1\<lparr>hr_platform := Some (plugin_name p)\<rparr>) = (r2, c2)"
    by (cases "createJovoInstance E (plugin_name p) (c1\<lparr>hr_platform := Some (plugin_name p)\<rparr>)")
  show ?thesis
  proof (cases r2)
    case (Some e)
    with m f j have "handle E a srv = handleError a e ?lg" by (simp add: handle_def)
    then show ?thesis by (simp add: handleError_prefix)
  next
    case None
    obtain r3 c3 lg3 where r: "mc_run E APP_MIDDLEWARES c2 ?lg = (r3, c3, lg3)"
      by (cases "mc_run E APP_MIDDLEWARES c2 ?lg")
    from mc_run_log[OF r] have p3: "prefix ?lg lg3" by auto
    have "prefix lg3 (snd (handle E a srv))"
    proof (cases r3)
      case (Some e)
      with handle_after_run[OF m f j[unfolded None] r] show ?thesis
        by (simp add: handleError_prefix)
    next
      case None3: None
      obtain r4 c4 lg4 where d: "dismount E c3 lg3 = (r4, c4, lg4)" by (cases "dismount E c3 lg3")
      from dismount_log[OF d] have "prefix lg3 lg4" by auto
      with handle_log_after_dismount[OF m f j[unfolded None] r[unfolded None3] d]
      show ?thesis by auto
    qed
    with p3 show ?thesis by (rule prefix_order.trans)
  qed
qed





subsection \<open>Delivery of the response\<close>

text \<open>
  Claim C4, amended. When mounting, platform matching, the creation of the state object
  and the pipeline have completed, \<open>handle\<close> dismounts the plugins. When a dismount hook
  fails, \<open>handle\<close> ends with the result of \<open>handleError\<close> for that error and nothing
  is written to the transport. When the dismounting completes: if the state object carries
  no response, \<open>handle\<close> returns normally and never calls \<open>setResponse\<close>; if it
  carries a response \<open>r\<close>, \<open>handle\<close> calls \<open>setResponse\<close> exactly once, with \<open>r\<close>,
  and returns normally when that call completes (its failure goes to \<open>handleError\<close>).
\<close>

theorem handle_response_delivery:
  assumes "mount E (HandleRequest a srv) [] = (None, c1, lg1)"
    and "find_platform E (platforms c1) (getRequestObject srv) lg1 = (Some p, lg2)"
    and "createJovoInstance E (plugin_name p) (c1\<lparr>hr_platform := Some (plugin_name p)\<rparr>) = (None, c2)"
    and "mc_run E APP_MIDDLEWARES c2
           (lg2 @ [CallCreateJovoInstance (plugin_name p) (Some (plugin_name p))]) = (None, c3, lg3)"
  shows "case dismount E c3 lg3 of
           (Some e, c4, lg4) \<Rightarrow>
             handle E a srv = handleError a e lg4 \<and> written (snd (handle E a srv)) = []
         | (None, c4, lg4) \<Rightarrow>
             (case jovo_response c4 of
                None \<Rightarrow> handle E a srv = (Returned, lg4) \<and> written (snd (handle E a srv)) = []
              | Some r \<Rightarrow>
                  written (snd (handle E a srv)) = [r] \<and>
                  (case setResponse srv r of
                     None \<Rightarrow> handle E a srv = (Returned, lg4 @ [CallSetResponse r])
                   | Some e \<Rightarrow> handle E a srv = handleError a e (lg4 @ [CallSetResponse r])))"
proof -
  obtain r4 c4 lg4 where d: "dismount E c3 lg3 = (r4, c4, lg4)" by (cases "dismount E c3 lg3")
  from mount_quiet(1)[OF assms(1)] have "written lg1 = []" by simp
  with find_platform_quiet(1)[OF assms(2)] have "written lg2 = []" by simp
  with mc_run_written[OF assms(4)] have "written lg3 = []" by (simp add: written_append)
  with dismount_quiet(1)[OF d] have w: "written lg4 = []" by simp
  note h = handle_after_dismount[OF assms d]
  show ?thesis
    unfolding d h using w
    by (simp add: written_append handleError_written split: option.splits)
qed

theorem handle_response_delivery_witness:
  "mount env0 (HandleRequest app0 server0) [] =
     (None, HandleRequest app0 server0,
      [CallMount ''RouterPlugin'', CallMount ''AlexaPlatform'', CallMount ''CorePlatform'']) \<and>
   handle env0 app0 server0 =
     (Returned,
      [CallMount ''RouterPlugin'', CallMount ''AlexaPlatform'', CallMount ''CorePlatform'',
       CallIsRequestRelated ''AlexaPlatform'',
       CallCreateJovoInstance ''AlexaPlatform'' (Some ''AlexaPlatform''),
       CallHandler ''dialogue.router'' 1, CallHandler ''dialogue.logic'' 2,
       CallHandler ''response.output'' 3,
       CallDismount ''RouterPlugin'', CallDismount ''AlexaPlatform'', CallDismount ''CorePlatform'',
       CallSetResponse (Response ''hello'')]) \<and>
   written (snd (handle env0 app0 server0)) = [Response ''hello''] \<and>
   handle (env0\<lparr>handler := (\<lambda>h c. (None, c))\<rparr>) app0 server0 =
     (Returned,
      [CallMount ''RouterPlugin'', CallMount ''AlexaPlatform'', CallMount ''CorePlatform'',
       CallIsRequestRelated ''AlexaPlatform'',
       CallCreateJovoInstance ''AlexaPlatform'' (Some ''AlexaPlatform''),
       CallHandler ''dialogue.router'' 1, CallHandler ''dialogue.logic'' 2,
       CallHandler ''response.output'' 3,
       CallDismount ''RouterPlugin'', CallDismount ''AlexaPlatform'', CallDismount ''CorePlatform'']) \<and>
   written (snd (handle (env0\<lparr>handler := (\<lambda>h c. (None, c))\<rparr>) app0 server0)) = [] \<and>
   handle (env0\<lparr>plugin_dismount :=
              (\<lambda>p c. if p = ''AlexaPlatform'' then (Some (Thrown ''dismount failed''), c)
                     else (None, c))\<rparr>) app0 server0 =
     (Threw (Thrown ''dismount failed''),
      [CallMount ''RouterPlugin'', CallMount ''AlexaPlatform'', CallMount ''CorePlatform'',
       CallIsRequestRelated ''AlexaPlatform'',
       CallCreateJovoInstance ''AlexaPlatform'' (Some ''AlexaPlatform''),
       CallHandler ''dialogue.router'' 1, CallHandler ''dialogue.logic'' 2,
       CallHandler ''response.output'' 3,
       CallDismount ''RouterPlugin'', CallDismount ''AlexaPlatform'']) \<and>
   written (snd (handle (env0\<lparr>plugin_dismount :=
              (\<lambda>p c. if p = ''AlexaPlatform'' then (Some (Thrown ''dismount failed''), c)
                     else (None, c))\<rparr>) app0 server0)) = []"
proof -
  let ?Q = "env0\<lparr>handler := (\<lambda>h c. (None, c))\<rparr>"
  let ?D = "env0\<lparr>plugin_dismount :=
              (\<lambda>p c. if p = ''AlexaPlatform'' then (Some (Thrown ''dismount failed''), c)
                     else (None, c))\<rparr>"
  let ?hr = "HandleRequest app0 server0"
  let ?ms = "[CallMount ''RouterPlugin'', CallMount ''AlexaPlatform'', CallMount ''CorePlatform'']"
  let ?al = "\<lparr>plugin_name = ''AlexaPlatform'', is_platform = True\<rparr>"
  let ?lg3 = "?ms @ [CallIsRequestRelated ''AlexaPlatform'',
       CallCreateJovoInstance ''AlexaPlatform'' (Some ''AlexaPlatform''),
       CallHandler ''dialogue.router'' 1, CallHandler ''dialogue.logic'' 2,
       CallHandler ''response.output'' 3]"
  let ?ds = "[CallDismount ''RouterPlugin'', CallDismount ''AlexaPlatform'', CallDismount ''CorePlatform'']"
  let ?c3 = "?hr\<lparr>hr_platform := Some ''AlexaPlatform'', jovo_response := Some (Response ''hello'')\<rparr>"
  have m: "mount env0 ?hr [] = (None, ?hr, ?ms)" by code_simp
  have f: "find_platform env0 (platforms ?hr) (getRequestObject server0) ?ms =
      (Some ?al, ?ms @ [CallIsRequestRelated ''AlexaPlatform''])" by code_simp
  have j: "createJovoInstance env0 (plugin_name ?al) (?hr\<lparr>hr_platform := Some (plugin_name ?al)\<rparr>) =
      (None, ?hr\<lparr>hr_platform := Some ''AlexaPlatform''\<rparr>)" by (simp add: env0_def)
  have r: "mc_run env0 APP_MIDDLEWARES (?hr\<lparr>hr_platform := Some ''AlexaPlatform''\<rparr>)
      ((?ms @ [CallIsRequestRelated ''AlexaPlatform'']) @
        [CallCreateJovoInstance (plugin_name ?al) (Some (plugin_name ?al))]) = (None, ?c3, ?lg3)"
    by code_simp
  have d: "dismount env0 ?c3 ?lg3 = (None, ?c3, ?lg3 @ ?ds)" by code_simp
  have m': "mount ?Q ?hr [] = (None, ?hr, ?ms)" by code_simp
  have f': "find_platform ?Q (platforms ?hr) (getRequestObject server0) ?ms =
      (Some ?al, ?ms @ [CallIsRequestRelated ''AlexaPlatform''])" by code_simp
  have j': "createJovoInstance ?Q (plugin_name ?al) (?hr\<lparr>hr_platform := Some (plugin_name ?al)\<rparr>) =
      (None, ?hr\<lparr>hr_platform := Some ''AlexaPlatform''\<rparr>)" by (simp add: env0_def)
  have r': "mc_run ?Q APP_MIDDLEWARES (?hr\<lparr>hr_platform := Some ''AlexaPlatform''\<rparr>)
      ((?ms @ [CallIsRequestRelated ''AlexaPlatform'']) @
        [CallCreateJovoInstance (plugin_name ?al) (Some (plugin_name ?al))]) =
      (None, ?hr\<lparr>hr_platform := Some ''AlexaPlatform''\<rparr>, ?lg3)" by code_simp
  have d': "dismount ?Q (?hr\<lparr>hr_platform := Some ''AlexaPlatform''\<rparr>) ?lg3 =
      (None, ?hr\<lparr>hr_platform := Some ''AlexaPlatform''\<rparr>, ?lg3 @ ?ds)" by code_simp
  have m'': "mount ?D ?hr [] = (None, ?hr, ?ms)" by code_simp
  have f'': "find_platform ?D (platforms ?hr) (getRequestObject server0) ?ms =
      (Some ?al, ?ms @ [CallIsRequestRelated ''AlexaPlatform''])" by code_simp
  have j'': "createJovoInstance ?D (plugin_name ?al) (?hr\<lparr>hr_platform := Some (plugin_name ?al)\<rparr>) =
      (None, ?hr\<lparr>hr_platform := Some ''AlexaPlatform''\<rparr>)" by (simp add: env0_def)
  have r'': "mc_run ?D APP_MIDDLEWARES (?hr\<lparr>hr_platform := Some ''AlexaPlatform''\<rparr>)
      ((?ms @ [CallIsRequestRelated ''AlexaPlatform'']) @
        [CallCreateJovoInstance (plugin_name ?al) (Some (plugin_name ?al))]) = (None, ?c3, ?lg3)"
    by code_simp
  have d'': "dismount ?D ?c3 ?lg3 =
      (Some (Thrown ''dismount failed''), ?c3,
       ?lg3 @ [CallDismount ''RouterPlugin'', CallDismount ''AlexaPlatform''])" by code_simp
  have s: "setResponse server0 (Response ''hello'') = None" by (simp add: server0_def)
  have n: "jovo_response ?hr = None" by (simp add: HandleRequest_def)
  have e: "errorCallback app0 = None" by (simp add: app0_def)
  note A = handle_response_delivery[OF m f j r, unfolded d prod.case option.case]
  from A s have 1: "handle env0 app0 server0 = (Returned, (?lg3 @ ?ds) @ [CallSetResponse (Response ''hello'')])"
    by simp
  from A have 2: "written (snd (handle env0 app0 server0)) = [Response ''hello'']"
    by simp
  note B = handle_response_delivery[OF m' f' j' r', unfolded d' prod.case option.case]
  from B n have 3: "handle ?Q app0 server0 = (Returned, ?lg3 @ ?ds)"
    and 4: "written (snd (handle ?Q app0 server0)) = []"
    by simp_all
  note C = handle_response_delivery[OF m'' f'' j'' r'', unfolded d'' prod.case option.case]
  from C have 5: "handle ?D app0 server0 =
      handleError app0 (Thrown ''dismount failed'')
        (?lg3 @ [CallDismount ''RouterPlugin'', CallDismount ''AlexaPlatform''])"
    and 6: "written (snd (handle ?D app0 server0)) = []"
    by blast+
  from m 1 2 3 4 5 6 show ?thesis by (simp add: handleError_def e)
qed

text \<open>
  The claim as stated fails when a dismount hook fails after the pipeline has completed:
  the response that the state object carries is never written, and \<open>handle\<close> does not
  return normally.
\<close>

theorem handle_response_delivery_counterexample:
  "mc_run (env0\<lparr>plugin_dismount := (\<lambda>p c. (Some (Thrown ''dismount failed''), c))\<rparr>)
     APP_MIDDLEWARES ((HandleRequest app0 server0)\<lparr>hr_platform := Some ''AlexaPlatform''\<rparr>) [] =
     (None,
      (HandleRequest app0 server0)
        \<lparr>hr_platform := Some ''AlexaPlatform'', jovo_response := Some (Response ''hello'')\<rparr>,
      [CallHandler ''dialogue.router'' 1, CallHandler ''dialogue.logic'' 2,
       CallHandler ''response.output'' 3]) \<and>
   handle (env0\<lparr>plugin_dismount := (\<lambda>p c. (Some (Thrown ''dismount failed''), c))\<rparr>) app0 server0 =
     (Threw (Thrown ''dismount failed''),
      [CallMount ''RouterPlugin'', CallMount ''AlexaPlatform'', CallMount ''CorePlatform'',
       CallIsRequestRelated ''AlexaPlatform'',
       CallCreateJovoInstance ''AlexaPlatform'' (Some ''AlexaPlatform''),
       CallHandler ''dialogue.router'' 1, CallHandler ''dialogue.logic'' 2,
       CallHandler ''response.output'' 3,
       CallDismount ''RouterPlugin'']) \<and>
   written (snd (handle (env0\<lparr>plugin_dismount := (\<lambda>p c. (Some (Thrown ''dismount failed''), c))\<rparr>)
                   app0 server0)) = []"
  by code_simp

subsection \<open>Dismounting\<close>




subsection \<open>Stopping the pipeline\<close>

text \<open>
  Claim C9. \<open>stopMiddlewareExecution\<close> leaves every stage of the request's middleware
  collection without handlers, and running any stages on the stopped request invokes no
  handler, throws nothing and changes nothing. Hence, when the last handler of a stage ends
  by calling it, the run of that stage and of all the stages after it completes without
  error and without invoking any further handler.
\<close>

theorem stopMiddlewareExecution_ends_pipeline:
  assumes "mc_get (hr_middlewareCollection c) n = hs @ [h]"
    and "run_handlers E n hs c lg = (None, c0, lg0)"
    and "handler E h c0 = (None, stopMiddlewareExecution c1)"
  shows "mc_get (hr_middlewareCollection (stopMiddlewareExecution c1)) n' = [] \<and>
         mc_run E ns' (stopMiddlewareExecution c1) lg' = (None, stopMiddlewareExecution c1, lg') \<and>
         mc_run E (n # ns) c lg = (None, stopMiddlewareExecution c1, lg0 @ [CallHandler n h])"
proof -
  from assms(2) have "run_handlers E n (hs @ [h]) c lg = run_handlers E n [h] c0 lg0"
    by (rule run_handlers_append)
  with assms(1,3) have "mc_run E (n # ns) c lg = mc_run E ns (stopMiddlewareExecution c1) (lg0 @ [CallHandler n h])"
    by simp
  then show ?thesis by (simp add: mc_get_stopped mc_run_stopped)
qed

theorem stopMiddlewareExecution_ends_pipeline_witness:
  "mc_get (hr_middlewareCollection (HandleRequest app0 server0)) ''dialogue.router'' = [] @ [1] \<and>
   handler (env0\<lparr>handler := (\<lambda>h c. if h = 1 then (None, stopMiddlewareExecution c) else (None, c))\<rparr>)
      1 (HandleRequest app0 server0) = (None, stopMiddlewareExecution (HandleRequest app0 server0)) \<and>
   mc_run (env0\<lparr>handler := (\<lambda>h c. if h = 1 then (None, stopMiddlewareExecution c) else (None, c))\<rparr>)
      [''dialogue.router'', ''dialogue.logic'', ''dialogue.end'',
       ''response.start'', ''response.output'', ''response.tts'', ''response.end'']
      (HandleRequest app0 server0) [] =
     (None, stopMiddlewareExecution (HandleRequest app0 server0), [CallHandler ''dialogue.router'' 1]) \<and>
   handlers_called (snd (handle
      (env0\<lparr>handler := (\<lambda>h c. if h = 1 then (None, stopMiddlewareExecution c) else (None, c))\<rparr>)
      app0 server0)) = [(''dialogue.router'', 1)] \<and>
   handlers_called (snd (handle (env0\<lparr>handler := (\<lambda>h c. (None, c))\<rparr>) app0 server0)) =
     [(''dialogue.router'', 1), (''dialogue.logic'', 2), (''response.output'', 3)]"
proof -
  let ?S = "env0\<lparr>handler := (\<lambda>h c. if h = 1 then (None, stopMiddlewareExecution c) else (None, c))\<rparr>"
  let ?hr = "HandleRequest app0 server0"
  have g: "mc_get (hr_middlewareCollection ?hr) ''dialogue.router'' = [] @ [1]" by code_simp
  have r: "run_handlers ?S ''dialogue.router'' [] ?hr [] = (None, ?hr, [])" by simp
  have h: "handler ?S 1 ?hr = (None, stopMiddlewareExecution ?hr)" by simp
  from stopMiddlewareExecution_ends_pipeline[OF g r h]
  have 1: "mc_run ?S
      (''dialogue.router'' # [''dialogue.logic'', ''dialogue.end'',
       ''response.start'', ''response.output'', ''response.tts'', ''response.end''])
      ?hr [] = (None, stopMiddlewareExecution ?hr, [] @ [CallHandler ''dialogue.router'' 1])"
    by blast
  have 2: "handlers_called (snd (handle ?S app0 server0)) = [(''dialogue.router'', 1)]"
    by code_simp
  have 3: "handlers_called (snd (handle (env0\<lparr>handler := (\<lambda>h c. (None, c))\<rparr>) app0 server0)) =
     [(''dialogue.router'', 1), (''dialogue.logic'', 2), (''response.output'', 3)]"
    by code_simp
  from g h 1 2 3 show ?thesis by simp
qed

subsection \<open>Merging a partial configuration\<close>

lemma get_prop_set_prop:
  "get_prop (set_prop object key v) k = (if k = key then v else get_prop object k)"
  by (induction object) (auto simp: get_prop_def)

lemma has_prop_set_prop:
  "has_prop (set_prop object key v) k = (k = key \<or> has_prop object k)"
  by (induction object key v rule: set_prop.induct) (auto simp: has_prop_def)

lemma get_prop_absent: "\<not> has_prop object key \<Longrightarrow> get_prop object key = JUndefined"
  unfolding get_prop_def has_prop_def by (simp add: map_of_eq_None_iff[THEN iffD2])

lemma get_prop_assignMergeValue:
  "get_prop (assignMergeValue object key v) k =
     (if k = key \<and> v \<noteq> JUndefined then v else get_prop object k)"
  by (auto simp: assignMergeValue_def get_prop_set_prop get_prop_absent)

lemma get_prop_baseMergeDeep_other:
  "k \<noteq> key \<Longrightarrow> get_prop (baseMergeDeep object key srcValue) k = get_prop object k"
  by (cases "(object, key, srcValue)" rule: baseMergeDeep.cases)
     (simp_all add: get_prop_assignMergeValue)

lemma get_prop_baseMergeDeep_same:
  "get_prop (baseMergeDeep object key srcValue) key = spec_merged_value (get_prop object key) srcValue"
proof (cases srcValue)
  case (JObject kd src)
  show ?thesis
  proof (cases kd)
    case Plain
    with JObject show ?thesis
      by (simp add: spec_merged_value_def get_prop_assignMergeValue split: jv.splits)
  next
    case Array
    with JObject show ?thesis
      by (simp add: spec_merged_value_def get_prop_assignMergeValue split: jv.splits kind.splits)
  next
    case (Instance c)
    with JObject show ?thesis
      by (simp add: spec_merged_value_def get_prop_assignMergeValue)
  qed
qed (simp_all add: spec_merged_value_def get_prop_assignMergeValue)

lemma get_prop_step:
  "get_prop (if isObject srcValue then baseMergeDeep object key srcValue
             else assignMergeValue object key srcValue) k =
     (if k = key then spec_merged_value (get_prop object key) srcValue else get_prop object k)"
proof (cases "isObject srcValue")
  case True
  then show ?thesis by (simp add: get_prop_baseMergeDeep_same get_prop_baseMergeDeep_other)
next
  case False
  then show ?thesis
    by (cases srcValue) (simp_all add: get_prop_assignMergeValue spec_merged_value_def)
qed

lemma get_prop_baseMerge_absent:
  "map_of source k = None \<Longrightarrow> get_prop (baseMerge object source) k = get_prop object k"
proof (induction source arbitrary: object)
  case Nil
  then show ?case by simp
next
  case (Cons p source)
  obtain key srcValue where p: "p = (key, srcValue)" by (cases p)
  from Cons.prems p have k: "k \<noteq> key" and s: "map_of source k = None"
    by (auto split: if_splits)
  have "get_prop (baseMerge object (p # source)) k =
      get_prop (baseMerge (if isObject srcValue then baseMergeDeep object key srcValue
             else assignMergeValue object key srcValue) source) k"
    by (simp only: p baseMerge.simps)
  also have "\<dots> = get_prop (if isObject srcValue then baseMergeDeep object key srcValue
             else assignMergeValue object key srcValue) k"
    using s by (rule Cons.IH)
  also have "\<dots> = get_prop object k"
    using k by (simp add: get_prop_step)
  finally show ?case .
qed

lemma get_prop_baseMerge:
  "distinct (map fst source) \<Longrightarrow> get_prop (baseMerge object source) k = spec_merged_at object source k"
proof (induction source arbitrary: object)
  case Nil
  then show ?case by (simp add: spec_merged_at_def)
next
  case (Cons p source)
  obtain key srcValue where p: "p = (key, srcValue)" by (cases p)
  let ?object' = "if isObject srcValue then baseMergeDeep object key srcValue
                  else assignMergeValue object key srcValue"
  from Cons.prems p have d: "distinct (map fst source)" and n: "map_of source key = None"
    by (auto simp: map_of_eq_None_iff)
  have unfold: "get_prop (baseMerge object (p # source)) k = get_prop (baseMerge ?object' source) k"
    by (simp only: p baseMerge.simps)
  show ?case
  proof (cases "k = key")
    case True
    with n have "get_prop (baseMerge ?object' source) k = get_prop ?object' k"
      by (simp only: get_prop_baseMerge_absent)
    also have "\<dots> = spec_merged_value (get_prop object key) srcValue"
      using True by (simp add: get_prop_step)
    also have "\<dots> = spec_merged_at object (p # source) k"
      using True p by (simp add: spec_merged_at_def)
    finally show ?thesis using unfold by simp
  next
    case False
    have "get_prop (baseMerge ?object' source) k = spec_merged_at ?object' source k"
      using d by (rule Cons.IH)
    also have "\<dots> = spec_merged_at object source k"
    proof -
      from False have "get_prop ?object' k = get_prop object k" by (simp add: get_prop_step)
      then show ?thesis by (simp only: spec_merged_at_def)
    qed
    also have "\<dots> = spec_merged_at object (p # source) k"
      using False p by (simp add: spec_merged_at_def)
    finally show ?thesis using unfold by simp
  qed
qed


lemma map_of_set_prop:
  "map_of (set_prop object key v) k = (if k = key then Some v else map_of object k)"
  by (induction object key v rule: set_prop.induct) auto

lemma keys_set_prop: "fst ` set (set_prop object key v) = insert key (fst ` set object)"
  by (induction object key v rule: set_prop.induct) auto

lemma distinct_set_prop:
  "distinct (map fst object) \<Longrightarrow> distinct (map fst (set_prop object key v))"
  by (induction object key v rule: set_prop.induct) (auto simp: keys_set_prop)

lemma use_nothing: "use U [] a = a"
  by (simp add: use_def)

lemma spec_merged_value_undefined: "spec_merged_value v JUndefined = v"
  by (simp add: spec_merged_value_def)

lemma spec_merged_at_set_prop_undefined:
  "spec_merged_at object (set_prop source key JUndefined) k =
     (if k = key then get_prop object k else spec_merged_at object source k)"
  by (simp add: spec_merged_at_def map_of_set_prop spec_merged_value_undefined)

lemma configure_config:
  "array_items (get_prop cfg ''plugins'') = [] \<Longrightarrow>
   array_items (get_prop cfg ''components'') = [] \<Longrightarrow>
   config (configure U cfg a) =
     baseMerge (config a) (set_prop (set_prop cfg ''components'' JUndefined) ''plugins'' JUndefined)"
  by (simp add: configure_def use_nothing)

lemma config_use:
  assumes "\<forall>ps b. config (Extensible_use U ps b) = config b"
    and "\<forall>cs b. config (componentTree_add U cs b) = config b"
  shows "config (use U usables a) = config a"
  using assms by (simp add: use_def Let_def)

text \<open>
  Claim C6, amended. For a partial configuration (an object, each key once), \<open>configure\<close>
  first merges it into the current config and then hands the plugins and components it
  names to \<open>use\<close>. The config that the merge produces, which is the config that
  \<open>configure\<close> leaves whenever \<^verbatim>\<open>Extensible.use\<close> and \<^verbatim>\<open>ComponentTree.add\<close> do not
  themselves write the config, has at every key other than \<open>plugins\<close> and \<open>components\<close>
  what \<^verbatim>\<open>lodash.merge\<close> leaves there: the old value when the partial configuration lacks
  the key or has \<^verbatim>\<open>undefined\<close> there, the recursive merge when it has a plain object
  there, the index-by-index merge when it has an array there (elements of the old array at
  indices that the new one lacks are kept), and the new value itself otherwise;
  \<open>plugins\<close> and \<open>components\<close> keep their old values. The same holds, key by key, for
  every nested merge.
\<close>

theorem configure_merges_key_by_key:
  assumes "distinct (map fst cfg)"
  shows "\<exists>merged.
           configure U cfg a =
             use U (array_items (get_prop cfg ''plugins'') @ array_items (get_prop cfg ''components''))
               (a\<lparr>config := merged\<rparr>) \<and>
           (\<forall>k. get_prop merged k =
                  (if k = ''plugins'' \<or> k = ''components'' then get_prop (config a) k
                   else spec_merged_at (config a) cfg k)) \<and>
           ((\<forall>ps b. config (Extensible_use U ps b) = config b) \<and>
            (\<forall>cs b. config (componentTree_add U cs b) = config b) \<longrightarrow>
            config (configure U cfg a) = merged) \<and>
           (\<forall>object source key.
              distinct (map fst source) \<longrightarrow>
              get_prop (baseMerge object source) key = spec_merged_at object source key)"
proof -
  let ?src = "set_prop (set_prop cfg ''components'' JUndefined) ''plugins'' JUndefined"
  let ?merged = "baseMerge (config a) ?src"
  let ?usables = "array_items (get_prop cfg ''plugins'') @ array_items (get_prop cfg ''components'')"
  from assms have d: "distinct (map fst ?src)" by (intro distinct_set_prop)
  have c: "configure U cfg a = use U ?usables (a\<lparr>config := ?merged\<rparr>)"
    by (simp add: configure_def Let_def)
  have g: "get_prop ?merged k =
             (if k = ''plugins'' \<or> k = ''components'' then get_prop (config a) k
              else spec_merged_at (config a) cfg k)" for k
  proof -
    have "get_prop ?merged k = spec_merged_at (config a) ?src k"
      using d by (rule get_prop_baseMerge)
    also have "\<dots> = (if k = ''plugins'' \<or> k = ''components'' then get_prop (config a) k
            else spec_merged_at (config a) cfg k)"
      by (simp only: spec_merged_at_set_prop_undefined) simp
    finally show ?thesis .
  qed
  have u: "config (configure U cfg a) = ?merged"
    if "\<forall>ps b. config (Extensible_use U ps b) = config b"
      and "\<forall>cs b. config (componentTree_add U cs b) = config b"
    unfolding c using config_use[OF that, of ?usables "a\<lparr>config := ?merged\<rparr>"] by simp
  have n: "\<forall>object source key.
              distinct (map fst source) \<longrightarrow>
              get_prop (baseMerge object source) key = spec_merged_at object source key"
    by (intro allI impI get_prop_baseMerge)
  from c g u n show ?thesis by (intro exI[of _ ?merged]) blast
qed

theorem configure_merges_key_by_key_witness:
  "distinct (map fst [(''a'', JObject Plain [(''y'', JNum 2)]),
                      (''plugins'', JObject Array [(''0'', JObject (Instance ''DebuggerPlugin'') [])])]) \<and>
   (\<forall>ps b. config (Extensible_use usage0 ps b) = config b) \<and>
   (\<forall>cs b. config (componentTree_add usage0 cs b) = config b) \<and>
   get_prop (config (configure usage0 [(''a'', JObject Plain [(''x'', JNum 1)])] app0)) ''a'' =
     JObject Plain [(''x'', JNum 1)] \<and>
   get_prop
     (config (configure usage0
                [(''a'', JObject Plain [(''y'', JNum 2)]),
                 (''plugins'', JObject Array [(''0'', JObject (Instance ''DebuggerPlugin'') [])])]
                (configure usage0 [(''a'', JObject Plain [(''x'', JNum 1)])] app0)))
     ''a'' =
     JObject Plain [(''x'', JNum 1), (''y'', JNum 2)] \<and>
   map plugin_name
     (plugins (configure usage0
                [(''a'', JObject Plain [(''y'', JNum 2)]),
                 (''plugins'', JObject Array [(''0'', JObject (Instance ''DebuggerPlugin'') [])])]
                (configure usage0 [(''a'', JObject Plain [(''x'', JNum 1)])] app0))) =
     [''RouterPlugin'', ''AlexaPlatform'', ''CorePlatform'', ''DebuggerPlugin'']"
proof -
  let ?cfg = "[(''a'', JObject Plain [(''y'', JNum 2)]),
               (''plugins'', JObject Array [(''0'', JObject (Instance ''DebuggerPlugin'') [])])]"
  let ?a1 = "configure usage0 [(''a'', JObject Plain [(''x'', JNum 1)])] app0"
  have d: "distinct (map fst ?cfg)" by simp
  have u: "\<forall>ps b. config (Extensible_use usage0 ps b) = config b"
    and c: "\<forall>cs b. config (componentTree_add usage0 cs b) = config b"
    by (simp_all add: usage0_def)
  have 1: "get_prop (config ?a1) ''a'' = JObject Plain [(''x'', JNum 1)]"
    by code_simp
  have 2: "spec_merged_at (config ?a1) ?cfg ''a'' = JObject Plain [(''x'', JNum 1), (''y'', JNum 2)]"
    by code_simp
  have 3: "map plugin_name (plugins (configure usage0 ?cfg ?a1)) =
      [''RouterPlugin'', ''AlexaPlatform'', ''CorePlatform'', ''DebuggerPlugin'']"
    by code_simp
  from configure_merges_key_by_key[OF d, of usage0 ?a1] obtain merged where
    m: "\<forall>k. get_prop merged k =
                  (if k = ''plugins'' \<or> k = ''components'' then get_prop (config ?a1) k
                   else spec_merged_at (config ?a1) ?cfg k)"
    and f: "(\<forall>ps b. config (Extensible_use usage0 ps b) = config b) \<and>
            (\<forall>cs b. config (componentTree_add usage0 cs b) = config b) \<longrightarrow>
            config (configure usage0 ?cfg ?a1) = merged"
    by blast
  from f u c have "config (configure usage0 ?cfg ?a1) = merged" by blast
  moreover from m have "get_prop merged ''a'' = spec_merged_at (config ?a1) ?cfg ''a''" by simp
  ultimately have "get_prop (config (configure usage0 ?cfg ?a1)) ''a'' =
      JObject Plain [(''x'', JNum 1), (''y'', JNum 2)]"
    using 2 by simp
  with d u c 1 3 show ?thesis by blast
qed

text \<open>
  The claim as stated fails for arrays: configuring a one-element array over a two-element
  array changes the first element and keeps the second.
\<close>

theorem configure_array_counterexample:
  "get_prop (config (configure usage0
      [(''intentsToSkipUnhandled'', JObject Array [(''0'', JStr ''END''), (''1'', JStr ''STOP'')])]
      app0)) ''intentsToSkipUnhandled'' =
     JObject Array [(''0'', JStr ''END''), (''1'', JStr ''STOP'')] \<and>
   get_prop (config (configure usage0
      [(''intentsToSkipUnhandled'', JObject Array [(''0'', JStr ''CANCEL'')])]
      (configure usage0
         [(''intentsToSkipUnhandled'', JObject Array [(''0'', JStr ''END''), (''1'', JStr ''STOP'')])]
         app0))) ''intentsToSkipUnhandled'' =
     JObject Array [(''0'', JStr ''CANCEL''), (''1'', JStr ''STOP'')] \<and>
   JObject Array [(''0'', JStr ''CANCEL''), (''1'', JStr ''STOP'')] \<noteq>
     JObject Array [(''0'', JStr ''CANCEL'')]"
  by code_simp

subsection \<open>Isolation of a request\<close>

text \<open>
  The cells that a clone or a merge allocates form a closed region: each step of
  \<open>baseClone\<close> and of \<open>baseMerge_st\<close> keeps \<open>sinv\<close> and leaves the older cells as they
  were. The constructor keeps \<open>building\<close>, so that every property of the new object other
  than \<^verbatim>\<open>app\<close> and \<^verbatim>\<open>server\<close> refers into the region of the cells it allocated.
\<close>

lemma val_in_mono: "val_in R v \<Longrightarrow> R \<subseteq> R' \<Longrightarrow> val_in R' v"
  by (cases v) auto

lemma val_ok_mono: "val_ok n v \<Longrightarrow> n \<le> m \<Longrightarrow> val_ok m v"
  by (cases v) auto

lemma val_in_region_ok: "val_in (region n0 X h) v \<Longrightarrow> val_ok (length h) v"
  by (cases v) (auto simp: region_def)

lemma region_mono: "length h \<le> length h' \<Longrightarrow> region n0 X h \<subseteq> region n0 X h'"
  by (auto simp: region_def)

lemma region_old: "a < length h \<Longrightarrow> length h \<le> length h' \<Longrightarrow>
    a \<in> region n0 X h' \<longleftrightarrow> a \<in> region n0 X h"
  by (auto simp: region_def)

lemma set_assign: "set (assign ps key v) \<subseteq> insert (key, v) (set ps)"
  by (induction ps key v rule: assign.induct) auto

lemma keys_assign: "fst ` set (assign ps key v) = insert key (fst ` set ps)"
  by (induction ps key v rule: assign.induct) auto

lemma lookup_cases: "lookup ps key = VUndefined \<or> (key, lookup ps key) \<in> set ps"
  by (auto simp: lookup_def dest: map_of_SomeD split: option.splits)

lemma lookup_assign: "lookup (assign ps key v) k = (if k = key then v else lookup ps k)"
  by (induction ps key v rule: assign.induct) (auto simp: lookup_def)

lemma length_st_set [simp]: "length (st_set h a key v) = length h"
  by (simp add: st_set_def)

lemma nth_st_set:
  "(st_set h a key v) ! b =
     (if b = a \<and> a < length h then Obj (okind (h ! a)) (assign (oprops (h ! a)) key v) else h ! b)"
  by (cases "a < length h") (simp_all add: st_set_def nth_list_update list_update_beyond)

lemma st_get_st_set:
  "a < length h \<Longrightarrow> st_get (st_set h a key v) b k =
     (if b = a \<and> k = key then v else st_get h b k)"
  by (simp add: st_get_def nth_st_set lookup_assign)

lemma length_assignMergeValue_st [simp]: "length (assignMergeValue_st h a key v) = length h"
  by (simp add: assignMergeValue_st_def)

lemma nth_assignMergeValue_st_other:
  "b \<noteq> a \<Longrightarrow> (assignMergeValue_st h a key v) ! b = h ! b"
  by (simp add: assignMergeValue_st_def nth_st_set)

lemma props_assignMergeValue_st:
  "set (oprops ((assignMergeValue_st h a key v) ! a)) \<subseteq> insert (key, v) (set (oprops (h ! a)))"
  using set_assign[of "oprops (h ! a)" key v]
  by (auto simp: assignMergeValue_st_def nth_st_set)

lemma wf_store_nth:
  "wf_store h \<Longrightarrow> a < length h \<Longrightarrow> (k, v) \<in> set (oprops (h ! a)) \<Longrightarrow> val_ok (length h) v"
  by (auto simp: wf_store_def dest!: bspec[where x = "h ! a"])

lemma wf_storeI:
  "(\<And>a k v. a < length h \<Longrightarrow> (k, v) \<in> set (oprops (h ! a)) \<Longrightarrow> val_ok (length h) v) \<Longrightarrow> wf_store h"
proof -
  assume r: "\<And>a k v. a < length h \<Longrightarrow> (k, v) \<in> set (oprops (h ! a)) \<Longrightarrow> val_ok (length h) v"
  show ?thesis
    unfolding wf_store_def
  proof (intro ballI, clarify)
    fix ob k v
    assume "ob \<in> set h" "(k, v) \<in> set (oprops ob)"
    then obtain a where "a < length h" "h ! a = ob" by (auto simp: in_set_conv_nth)
    with r[of a k v] \<open>(k, v) \<in> set (oprops ob)\<close> show "val_ok (length h) v" by simp
  qed
qed

lemma closed_inD:
  "closed_in R h \<Longrightarrow> a \<in> R \<Longrightarrow> (k, v) \<in> set (oprops (h ! a)) \<Longrightarrow> val_in R v"
  by (auto simp: closed_in_def)

lemma closed_inI:
  "(\<And>a k v. a \<in> R \<Longrightarrow> (k, v) \<in> set (oprops (h ! a)) \<Longrightarrow> val_in R v) \<Longrightarrow> closed_in R h"
  by (auto simp: closed_in_def)

lemma closed_lookup: "closed_in R h \<Longrightarrow> a \<in> R \<Longrightarrow> val_in R (st_get h a key)"
  using lookup_cases[of "oprops (h ! a)" key] by (auto simp: st_get_def dest: closed_inD)

lemma wf_lookup: "wf_store h \<Longrightarrow> a < length h \<Longrightarrow> val_ok (length h) (st_get h a key)"
  using lookup_cases[of "oprops (h ! a)" key] by (auto simp: st_get_def dest: wf_store_nth)

lemma ext_refl: "ext h h"
  by (simp add: ext_def)

lemma ext_trans: "ext h h1 \<Longrightarrow> ext h1 h2 \<Longrightarrow> ext h h2"
  by (auto simp: ext_def)

lemma ext_alloc: "ext h (h @ [ob])"
  by (simp add: ext_def nth_append)

lemma inv_alloc:
  assumes "sinv n0 X h" and "\<forall>(k, v)\<in>set ps. val_in (region n0 X h) v"
  shows "sinv n0 X (h @ [Obj kd ps])"
proof -
  let ?h' = "h @ [Obj kd ps]"
  from assms(1) have wf: "wf_store h" and n0: "n0 \<le> length h" and X: "\<forall>x\<in>X. x < length h"
    and cl: "closed_in (region n0 X h) h"
    by (simp_all add: sinv_def)
  have sub: "region n0 X h \<subseteq> region n0 X ?h'" by (rule region_mono) simp
  have "wf_store ?h'"
  proof (rule wf_storeI)
    fix a k v
    assume a: "a < length ?h'" and kv: "(k, v) \<in> set (oprops (?h' ! a))"
    show "val_ok (length ?h') v"
    proof (cases "a < length h")
      case True
      with kv have "(k, v) \<in> set (oprops (h ! a))" by (simp add: nth_append)
      from wf_store_nth[OF wf True this] show ?thesis by (rule val_ok_mono) simp
    next
      case False
      with a kv have "(k, v) \<in> set ps" by (simp add: nth_append)
      with assms(2) have "val_in (region n0 X h) v" by auto
      then have "val_ok (length h) v" by (rule val_in_region_ok)
      then show ?thesis by (rule val_ok_mono) simp
    qed
  qed
  moreover have "closed_in (region n0 X ?h') ?h'"
  proof (rule closed_inI)
    fix a k v
    assume a: "a \<in> region n0 X ?h'" and kv: "(k, v) \<in> set (oprops (?h' ! a))"
    show "val_in (region n0 X ?h') v"
    proof (cases "a < length h")
      case True
      with a have "a \<in> region n0 X h" by (simp add: region_def)
      moreover from True kv have "(k, v) \<in> set (oprops (h ! a))" by (simp add: nth_append)
      ultimately have "val_in (region n0 X h) v" using cl by (blast dest: closed_inD)
      then show ?thesis using sub by (rule val_in_mono)
    next
      case False
      with a have "a = length h" by (simp add: region_def)
      with kv have "(k, v) \<in> set ps" by simp
      with assms(2) have "val_in (region n0 X h) v" by auto
      then show ?thesis using sub by (rule val_in_mono)
    qed
  qed
  ultimately show ?thesis using n0 X by (auto simp: sinv_def)
qed

lemma new_in_region: "sinv n0 X h \<Longrightarrow> length h \<in> region n0 X (h @ [ob])"
  by (auto simp: sinv_def region_def)

lemma inv_st_set_region:
  assumes "sinv n0 X h" and "a \<in> region n0 X h" and "val_in (region n0 X h) v"
  shows "sinv n0 X (st_set h a key v)"
proof -
  let ?h' = "st_set h a key v"
  from assms(1) have wf: "wf_store h" and n0: "n0 \<le> length h" and X: "\<forall>x\<in>X. x < length h"
    and cl: "closed_in (region n0 X h) h"
    by (simp_all add: sinv_def)
  have reg: "region n0 X ?h' = region n0 X h" by (simp add: region_def)
  from assms(2) have a: "a < length h" by (simp add: region_def)
  have props: "(k, w) \<in> set (oprops (?h' ! b)) \<Longrightarrow>
      (k, w) \<in> set (oprops (h ! b)) \<or> (b = a \<and> w = v)" for b k w
    using set_assign[of "oprops (h ! a)" key v] by (auto simp: nth_st_set split: if_splits)
  have "wf_store ?h'"
  proof (rule wf_storeI)
    fix b k w
    assume "b < length ?h'" and "(k, w) \<in> set (oprops (?h' ! b))"
    with props[of k w b] wf_store_nth[OF wf, of b k w] val_in_region_ok[OF assms(3)]
    show "val_ok (length ?h') w" by auto
  qed
  moreover have "closed_in (region n0 X ?h') ?h'"
    unfolding reg
  proof (rule closed_inI)
    fix b k w
    assume "b \<in> region n0 X h" and "(k, w) \<in> set (oprops (?h' ! b))"
    with props[of k w b] closed_inD[OF cl, of b k w] assms(3)
    show "val_in (region n0 X h) w" by auto
  qed
  ultimately show ?thesis using n0 X by (simp add: sinv_def)
qed

lemma inv_st_set_special:
  assumes "sinv n0 X h" and "a \<in> X" and "val_ok (length h) v"
  shows "sinv n0 X (st_set h a key v)"
proof -
  let ?h' = "st_set h a key v"
  from assms(1) have wf: "wf_store h" and n0: "n0 \<le> length h" and X: "\<forall>x\<in>X. x < length h"
    and cl: "closed_in (region n0 X h) h"
    by (simp_all add: sinv_def)
  have reg: "region n0 X ?h' = region n0 X h" by (simp add: region_def)
  have props: "(k, w) \<in> set (oprops (?h' ! b)) \<Longrightarrow>
      (k, w) \<in> set (oprops (h ! b)) \<or> (b = a \<and> w = v)" for b k w
    using set_assign[of "oprops (h ! a)" key v] by (auto simp: nth_st_set split: if_splits)
  have "wf_store ?h'"
  proof (rule wf_storeI)
    fix b k w
    assume "b < length ?h'" and "(k, w) \<in> set (oprops (?h' ! b))"
    with props[of k w b] wf_store_nth[OF wf, of b k w] assms(3)
    show "val_ok (length ?h') w" by auto
  qed
  moreover have "closed_in (region n0 X ?h') ?h'"
    unfolding reg
  proof (rule closed_inI)
    fix b k w
    assume b: "b \<in> region n0 X h" and "(k, w) \<in> set (oprops (?h' ! b))"
    moreover from b assms(2) have "b \<noteq> a" by (auto simp: region_def)
    ultimately show "val_in (region n0 X h) w"
      using props[of k w b] closed_inD[OF cl, of b k w] by auto
  qed
  ultimately show ?thesis using n0 X by (simp add: sinv_def)
qed

lemma cloneProps_inv:
  assumes T: "\<And>h stack v h' stack' v'.
      baseClone n h stack v = Some (h', stack', v') \<Longrightarrow> sinv n0 X h \<Longrightarrow>
      stack_ok (region n0 X h) stack \<Longrightarrow> val_ok (length h) v \<Longrightarrow>
      ext h h' \<and> sinv n0 X h' \<and> stack_ok (region n0 X h') stack' \<and> val_in (region n0 X h') v'"
  shows "cloneProps n h stack result props = Some (h', stack') \<Longrightarrow> sinv n0 X h \<Longrightarrow>
      stack_ok (region n0 X h) stack \<Longrightarrow> result \<in> region n0 X h \<Longrightarrow>
      \<forall>(k, v)\<in>set props. val_ok (length h) v \<Longrightarrow>
      length h \<le> length h' \<and> (\<forall>a<length h. a \<noteq> result \<longrightarrow> h' ! a = h ! a) \<and>
      fst ` set (oprops (h' ! result)) \<subseteq> fst ` set (oprops (h ! result)) \<union> fst ` set props \<and>
      sinv n0 X h' \<and> stack_ok (region n0 X h') stack'"
proof (induction props arbitrary: h stack)
  case Nil
  then show ?case by simp
next
  case (Cons p props)
  obtain key subValue where p: "p = (key, subValue)" by (cases p)
  from Cons.prems(1) p obtain h1 stack1 v where
    c: "baseClone n h stack subValue = Some (h1, stack1, v)"
    and r: "cloneProps n (st_set h1 result key v) stack1 result props = Some (h', stack')"
    by (auto split: option.splits)
  from Cons.prems(5) p have "val_ok (length h) subValue" by simp
  from T[OF c Cons.prems(2,3) this]
  have e: "ext h h1" and i1: "sinv n0 X h1" and s1: "stack_ok (region n0 X h1) stack1"
    and v: "val_in (region n0 X h1) v"
    by simp_all
  let ?h2 = "st_set h1 result key v"
  from e have len: "length h \<le> length h1" by (simp add: ext_def)
  from Cons.prems(4) have res: "result \<in> region n0 X h1" "result < length h"
    using region_mono[OF len, of n0 X] by (auto simp: region_def)
  have i2: "sinv n0 X ?h2" using i1 res(1) v by (rule inv_st_set_region)
  have reg2: "region n0 X ?h2 = region n0 X h1" by (simp add: region_def)
  have vs: "\<forall>(k, v)\<in>set props. val_ok (length ?h2) v"
    using Cons.prems(5) len by (auto intro: val_ok_mono)
  from Cons.IH[OF r i2 _ _ vs] s1 res(1) reg2
  have IH: "length ?h2 \<le> length h'" "\<forall>a<length ?h2. a \<noteq> result \<longrightarrow> h' ! a = ?h2 ! a"
    "fst ` set (oprops (h' ! result)) \<subseteq> fst ` set (oprops (?h2 ! result)) \<union> fst ` set props"
    "sinv n0 X h'" "stack_ok (region n0 X h') stack'"
    by simp_all
  have same: "h' ! a = h ! a" if "a < length h" "a \<noteq> result" for a
  proof -
    from that len IH(2) have "h' ! a = ?h2 ! a" by simp
    also from that have "\<dots> = h1 ! a" by (simp add: nth_st_set)
    also from that e have "\<dots> = h ! a" by (simp add: ext_def)
    finally show ?thesis .
  qed
  from res(2) e have "h1 ! result = h ! result" by (simp add: ext_def)
  with res(2) len have "fst ` set (oprops (?h2 ! result)) = insert key (fst ` set (oprops (h ! result)))"
    by (simp add: nth_st_set keys_assign)
  with IH(3) p have keys: "fst ` set (oprops (h' ! result)) \<subseteq>
      fst ` set (oprops (h ! result)) \<union> fst ` set (p # props)"
    by auto
  from IH(1,4,5) len same keys show ?case by simp
qed

lemma baseClone_inv:
  "baseClone n h stack v = Some (h', stack', v') \<Longrightarrow> sinv n0 X h \<Longrightarrow>
     stack_ok (region n0 X h) stack \<Longrightarrow> val_ok (length h) v \<Longrightarrow>
     ext h h' \<and> sinv n0 X h' \<and> stack_ok (region n0 X h') stack' \<and> val_in (region n0 X h') v'"
proof (induction n arbitrary: h stack v h' stack' v')
  case 0
  then show ?case by (cases v) (auto simp: ext_refl)
next
  case (Suc n)
  show ?case
  proof (cases v)
    case (VRef a)
    with Suc.prems(1) have a: "a < length h" by (auto split: if_splits)
    show ?thesis
    proof (cases "map_of stack a")
      case (Some stacked)
      with Suc.prems(1) VRef a have "h' = h" "stack' = stack" "v' = VRef stacked" by simp_all
      moreover from Some Suc.prems(3) have "stacked \<in> region n0 X h"
        by (auto simp: stack_ok_def dest: map_of_SomeD)
      ultimately show ?thesis using Suc.prems(2,3) by (simp add: ext_refl)
    next
      case None
      let ?h1 = "h @ [Obj (okind (h ! a)) []]"
      from None Suc.prems(1) VRef a have
        c: "cloneProps n ?h1 ((a, length h) # stack) (length h) (oprops (h ! a)) = Some (h', stack')"
        and v': "v' = VRef (length h)"
        by (auto split: option.splits)
      have i1: "sinv n0 X ?h1" using Suc.prems(2) by (rule inv_alloc) simp
      have new: "length h \<in> region n0 X ?h1" using Suc.prems(2) by (rule new_in_region)
      have sub: "region n0 X h \<subseteq> region n0 X ?h1" by (rule region_mono) simp
      have s1: "stack_ok (region n0 X ?h1) ((a, length h) # stack)"
        using Suc.prems(3) new sub by (auto simp: stack_ok_def)
      from Suc.prems(2) have "wf_store h" by (simp add: sinv_def)
      then have vs: "\<forall>(k, v)\<in>set (oprops (h ! a)). val_ok (length ?h1) v"
        using a by (auto dest!: wf_store_nth intro: val_ok_mono)
      from cloneProps_inv[OF Suc.IH c i1 s1 new vs]
      have r: "length ?h1 \<le> length h'" "\<forall>b<length ?h1. b \<noteq> length h \<longrightarrow> h' ! b = ?h1 ! b"
        "sinv n0 X h'" "stack_ok (region n0 X h') stack'"
        by simp_all
      have "ext h h'" using r(1,2) by (auto simp: ext_def nth_append)
      moreover from new r(1) have "length h \<in> region n0 X h'"
        using region_mono[OF r(1), of n0 X] by auto
      ultimately show ?thesis using r(3,4) v' by simp
    qed
  qed (use Suc.prems in \<open>auto simp: ext_refl\<close>)
qed

lemma frame_refl: "frame n0 X h h"
  by (simp add: frame_def)

lemma frame_trans: "frame n0 X h h1 \<Longrightarrow> frame n0 X h1 h2 \<Longrightarrow> frame n0 X h h2"
  by (auto simp: frame_def)

lemma ext_frame: "ext h h' \<Longrightarrow> frame n0 X h h'"
  by (simp add: ext_def frame_def)

lemma sinv_assign:
  assumes "sinv n0 X h" and "a \<in> region n0 X h \<or> a \<in> X" and "val_in (region n0 X h) v"
  shows "sinv n0 X (assignMergeValue_st h a key v)"
proof (cases "assignMergeValue_st h a key v = h")
  case True
  with assms(1) show ?thesis by simp
next
  case False
  then have e: "assignMergeValue_st h a key v = st_set h a key v"
    by (simp add: assignMergeValue_st_def split: if_splits)
  from assms(2) show ?thesis
  proof
    assume "a \<in> region n0 X h"
    with assms(1,3) show ?thesis unfolding e by (intro inv_st_set_region)
  next
    assume "a \<in> X"
    with assms(1) val_in_region_ok[OF assms(3)] show ?thesis
      unfolding e by (intro inv_st_set_special)
  qed
qed

lemma st_get_assign:
  "st_get (assignMergeValue_st h a key v) b k = st_get h b k \<or>
   (b = a \<and> k = key \<and> st_get (assignMergeValue_st h a key v) b k = v)"
proof (cases "a < length h")
  case True
  then show ?thesis by (auto simp: assignMergeValue_st_def st_get_st_set)
next
  case False
  then show ?thesis by (simp add: assignMergeValue_st_def st_set_def list_update_beyond)
qed

lemma mergeTarget_inv:
  assumes "mergeTarget h kd objValue = Some (h1, t)" and "sinv n0 X h"
    and "val_in (region n0 X h) objValue"
  shows "ext h h1 \<and> sinv n0 X h1 \<and> t \<in> region n0 X h1"
proof -
  have fresh: "ext h (h @ [Obj k ps]) \<and> sinv n0 X (h @ [Obj k ps]) \<and>
      length h \<in> region n0 X (h @ [Obj k ps])"
    if "\<forall>(k, v)\<in>set ps. val_in (region n0 X h) v" for k ps
    using that assms(2) by (simp add: ext_alloc inv_alloc new_in_region)
  have empty: "ext h (h @ [Obj k []]) \<and> sinv n0 X (h @ [Obj k []]) \<and>
      length h \<in> region n0 X (h @ [Obj k []])" for k
    by (rule fresh) simp
  show ?thesis
  proof (cases objValue)
    case (VRef a)
    with assms(3) have a: "a \<in> region n0 X h" by simp
    then have al: "a < length h" by (simp add: region_def)
    from assms(2) have cl: "closed_in (region n0 X h) h" by (simp add: sinv_def)
    have copy: "\<forall>(k, v)\<in>set (copyArray_st (oprops (h ! a))). val_in (region n0 X h) v"
    proof -
      have "val_in (region n0 X h) (lookup (oprops (h ! a)) k)" for k
        using closed_lookup[OF cl a, of k] by (simp add: st_get_def)
      then show ?thesis by (auto simp: copyArray_st_def split: val.splits)
    qed
    from assms(1) VRef al a fresh[OF copy, of Array] empty[of Array] assms(2) show ?thesis
      by (auto simp: mergeTarget_def alloc_def ext_refl split: kind.splits if_splits)
  next
    case VUndefined
    with assms(1) empty[of Array] empty[of Plain] show ?thesis
      by (auto simp: mergeTarget_def alloc_def split: kind.splits)
  next
    case VNull
    with assms(1) empty[of Array] empty[of Plain] show ?thesis
      by (auto simp: mergeTarget_def alloc_def split: kind.splits)
  next
    case (VBool b)
    with assms(1) empty[of Array] empty[of Plain] show ?thesis
      by (auto simp: mergeTarget_def alloc_def split: kind.splits)
  next
    case (VNum i)
    with assms(1) empty[of Array] empty[of Plain] show ?thesis
      by (auto simp: mergeTarget_def alloc_def split: kind.splits)
  next
    case (VStr s)
    with assms(1) empty[of Array] empty[of Plain] show ?thesis
      by (auto simp: mergeTarget_def alloc_def split: kind.splits)
  next
    case (VFunction f)
    with assms(1) empty[of Array] empty[of Plain] show ?thesis
      by (auto simp: mergeTarget_def alloc_def split: kind.splits)
  qed
qed

lemma mergeKeys_step:
  assumes "mergeKeys n h stack object source (key # keys) = Some h'"
  shows "(\<exists>v. (v = st_get h source key \<or> (\<exists>s stacked. map_of stack s = Some stacked \<and> v = VRef stacked)) \<and>
            mergeKeys n (assignMergeValue_st h object key v) stack object source keys = Some h') \<or>
         (\<exists>s h1 nv h2. st_get h source key = VRef s \<and>
            mergeTarget h (okind (h ! s)) (st_get h object key) = Some (h1, nv) \<and>
            baseMerge_st n h1 ((s, nv) # stack) nv s = Some h2 \<and>
            mergeKeys n (assignMergeValue_st h2 object key (VRef nv)) stack object source keys = Some h')"
proof (cases "st_get h source key")
  case (VRef s)
  show ?thesis
  proof (cases "map_of stack s")
    case (Some stacked)
    with assms VRef have "mergeKeys n (assignMergeValue_st h object key (VRef stacked))
        stack object source keys = Some h'"
      by (simp split: if_splits)
    with Some show ?thesis by blast
  next
    case None
    show ?thesis
    proof (cases "okind (h ! s)")
      case (Instance c)
      with assms VRef None have "mergeKeys n (assignMergeValue_st h object key (VRef s))
          stack object source keys = Some h'"
        by (simp split: if_splits)
      with VRef show ?thesis by metis
    next
      case Plain
      with assms VRef None obtain h1 nv h2 where
        "mergeTarget h (okind (h ! s)) (st_get h object key) = Some (h1, nv)"
        "baseMerge_st n h1 ((s, nv) # stack) nv s = Some h2"
        "mergeKeys n (assignMergeValue_st h2 object key (VRef nv)) stack object source keys = Some h'"
        by (auto split: if_splits option.splits)
      with VRef show ?thesis by blast
    next
      case Array
      with assms VRef None obtain h1 nv h2 where
        "mergeTarget h (okind (h ! s)) (st_get h object key) = Some (h1, nv)"
        "baseMerge_st n h1 ((s, nv) # stack) nv s = Some h2"
        "mergeKeys n (assignMergeValue_st h2 object key (VRef nv)) stack object source keys = Some h'"
        by (auto split: if_splits option.splits)
      with VRef show ?thesis by blast
    qed
  qed
qed (use assms in \<open>auto\<close>)

lemma stack_ok_lookup: "stack_ok R stack \<Longrightarrow> map_of stack s = Some r \<Longrightarrow> r \<in> R"
proof -
  assume a: "stack_ok R stack" and "map_of stack s = Some r"
  then have "(s, r) \<in> set stack" by (simp add: map_of_SomeD)
  with a show ?thesis by (auto simp: stack_ok_def)
qed

lemma mergeKeys_inv:
  assumes T: "\<And>h stack object source h'.
      baseMerge_st n h stack object source = Some h' \<Longrightarrow> sinv n0 X h \<Longrightarrow>
      stack_ok (region n0 X h) stack \<Longrightarrow> object \<in> region n0 X h \<Longrightarrow>
      source \<in> region n0 X h \<Longrightarrow> frame n0 X h h' \<and> sinv n0 X h'"
  shows "mergeKeys n h stack object source keys = Some h' \<Longrightarrow> sinv n0 X h \<Longrightarrow>
      stack_ok (region n0 X h) stack \<Longrightarrow> object \<in> region n0 X h \<or> object \<in> X \<Longrightarrow>
      source \<in> region n0 X h \<Longrightarrow>
      \<forall>key\<in>set keys. val_in (region n0 X h) (st_get h object key) \<Longrightarrow>
      length h \<le> length h' \<and>
      (\<forall>a<length h. (a < n0 \<or> a \<in> X) \<and> a \<noteq> object \<longrightarrow> h' ! a = h ! a) \<and>
      sinv n0 X h' \<and>
      (\<forall>k. st_get h' object k = st_get h object k \<or> val_in (region n0 X h') (st_get h' object k))"
proof (induction keys arbitrary: h)
  case Nil
  then show ?case by auto
next
  case (Cons key keys)
  note i = \<open>sinv n0 X h\<close> and so = \<open>stack_ok (region n0 X h) stack\<close>
    and ob = \<open>object \<in> region n0 X h \<or> object \<in> X\<close> and src = \<open>source \<in> region n0 X h\<close>
  from i have cl: "closed_in (region n0 X h) h" and Xl: "\<forall>x\<in>X. x < length h"
    by (simp_all add: sinv_def)
  from ob Xl have obl: "object < length h" by (auto simp: region_def)
  from mergeKeys_step[OF Cons.prems(1)]
  consider (simple) v where
      "v = st_get h source key \<or> (\<exists>s stacked. map_of stack s = Some stacked \<and> v = VRef stacked)"
      "mergeKeys n (assignMergeValue_st h object key v) stack object source keys = Some h'"
    | (deep) s h1 nv h2 where
      "st_get h source key = VRef s"
      "mergeTarget h (okind (h ! s)) (st_get h object key) = Some (h1, nv)"
      "baseMerge_st n h1 ((s, nv) # stack) nv s = Some h2"
      "mergeKeys n (assignMergeValue_st h2 object key (VRef nv)) stack object source keys = Some h'"
    by blast
  note step = this
  have mid: "\<exists>hm v. mergeKeys n hm stack object source keys = Some h' \<and>
      length h \<le> length hm \<and>
      (\<forall>a<length h. (a < n0 \<or> a \<in> X) \<and> a \<noteq> object \<longrightarrow> hm ! a = h ! a) \<and>
      sinv n0 X hm \<and> val_in (region n0 X hm) v \<and>
      (object \<in> X \<longrightarrow> (\<forall>k. st_get hm object k = st_get h object k \<or> st_get hm object k = v))"
  proof (cases rule: step)
    case (simple v)
    note v = simple(1) and m = simple(2)
    from v have vin: "val_in (region n0 X h) v"
    proof
      assume "v = st_get h source key"
      with closed_lookup[OF cl src, of key] show ?thesis by simp
    next
      assume "\<exists>s stacked. map_of stack s = Some stacked \<and> v = VRef stacked"
      with so show ?thesis by (auto dest: stack_ok_lookup)
    qed
    let ?hm = "assignMergeValue_st h object key v"
    have "sinv n0 X ?hm" using i ob vin by (rule sinv_assign)
    moreover have "region n0 X ?hm = region n0 X h" by (simp add: region_def)
    moreover have "st_get ?hm object k = st_get h object k \<or> st_get ?hm object k = v" for k
      using st_get_assign[of h object key v object k] by auto
    ultimately show ?thesis
      using m vin
      by (intro exI[of _ ?hm] exI[of _ v]) (simp add: nth_assignMergeValue_st_other)
  next
    case (deep s h1 nv h2)
    note s = deep(1) and mt = deep(2) and bm = deep(3) and m = deep(4)
    from closed_lookup[OF cl src, of key] s have sin: "s \<in> region n0 X h" by simp
    from Cons.prems(6) have "val_in (region n0 X h) (st_get h object key)" by simp
    from mergeTarget_inv[OF mt i this]
    have e1: "ext h h1" and i1: "sinv n0 X h1" and nv: "nv \<in> region n0 X h1" by simp_all
    from e1 have l1: "length h \<le> length h1" by (simp add: ext_def)
    note sub1 = region_mono[OF l1, of n0 X]
    have "stack_ok (region n0 X h1) ((s, nv) # stack)"
      using so nv sub1 by (auto simp: stack_ok_def)
    from T[OF bm i1 this nv] sin sub1
    have f2: "frame n0 X h1 h2" and i2: "sinv n0 X h2" by auto
    from f2 have l2: "length h1 \<le> length h2" by (simp add: frame_def)
    note sub2 = region_mono[OF l2, of n0 X]
    let ?hm = "assignMergeValue_st h2 object key (VRef nv)"
    have reg: "region n0 X ?hm = region n0 X h2" by (simp add: region_def)
    from ob sub1 sub2 have ob2: "object \<in> region n0 X h2 \<or> object \<in> X" by auto
    from nv sub2 have nv2: "val_in (region n0 X h2) (VRef nv)" by auto
    have im: "sinv n0 X ?hm" using i2 ob2 nv2 by (rule sinv_assign)
    have same: "?hm ! a = h ! a" if "a < length h" "a < n0 \<or> a \<in> X" "a \<noteq> object" for a
    proof -
      from that have "?hm ! a = h2 ! a" by (simp add: nth_assignMergeValue_st_other)
      also from that l1 f2 have "\<dots> = h1 ! a" by (auto simp: frame_def)
      also from that e1 have "\<dots> = h ! a" by (simp add: ext_def)
      finally show ?thesis .
    qed
    have gets: "st_get ?hm object k = st_get h object k \<or> st_get ?hm object k = VRef nv"
      if "object \<in> X" for k
    proof -
      from that obl l1 f2 have "h2 ! object = h1 ! object" by (auto simp: frame_def)
      also from obl e1 have "\<dots> = h ! object" by (simp add: ext_def)
      finally have "st_get h2 object k = st_get h object k" by (simp add: st_get_def)
      with st_get_assign[of h2 object key "VRef nv" object k] show ?thesis by auto
    qed
    from m l1 l2 same im nv2 gets show ?thesis
      by (intro exI[of _ ?hm] exI[of _ "VRef nv"]) (simp add: reg)
  qed
  then obtain hm v where m: "mergeKeys n hm stack object source keys = Some h'"
    and lm: "length h \<le> length hm"
    and same: "\<forall>a<length h. (a < n0 \<or> a \<in> X) \<and> a \<noteq> object \<longrightarrow> hm ! a = h ! a"
    and im: "sinv n0 X hm" and vm: "val_in (region n0 X hm) v"
    and gets: "object \<in> X \<longrightarrow> (\<forall>k. st_get hm object k = st_get h object k \<or> st_get hm object k = v)"
    by blast
  note sub = region_mono[OF lm, of n0 X]
  from im have clm: "closed_in (region n0 X hm) hm" by (simp add: sinv_def)
  have som: "stack_ok (region n0 X hm) stack" using so sub by (auto simp: stack_ok_def)
  have obm: "object \<in> region n0 X hm \<or> object \<in> X" using ob sub by auto
  have srcm: "source \<in> region n0 X hm" using src sub by auto
  have tm: "\<forall>k\<in>set keys. val_in (region n0 X hm) (st_get hm object k)"
  proof
    fix k assume k: "k \<in> set keys"
    from obm show "val_in (region n0 X hm) (st_get hm object k)"
    proof
      assume "object \<in> region n0 X hm"
      with clm show ?thesis by (rule closed_lookup)
    next
      assume "object \<in> X"
      with gets have "st_get hm object k = st_get h object k \<or> st_get hm object k = v" by simp
      moreover from Cons.prems(6) k have "val_in (region n0 X hm) (st_get h object k)"
        using sub by (auto intro: val_in_mono)
      ultimately show ?thesis using vm by auto
    qed
  qed
  from Cons.IH[OF m im som obm srcm tm]
  have IH: "length hm \<le> length h'"
    "\<forall>a<length hm. (a < n0 \<or> a \<in> X) \<and> a \<noteq> object \<longrightarrow> h' ! a = hm ! a"
    "sinv n0 X h'"
    "\<forall>k. st_get h' object k = st_get hm object k \<or> val_in (region n0 X h') (st_get h' object k)"
    by simp_all
  note sub' = region_mono[OF IH(1), of n0 X]
  have 1: "length h \<le> length h'" using lm IH(1) by simp
  have 2: "\<forall>a<length h. (a < n0 \<or> a \<in> X) \<and> a \<noteq> object \<longrightarrow> h' ! a = h ! a"
    using same IH(2) lm by auto
  have 4: "st_get h' object k = st_get h object k \<or> val_in (region n0 X h') (st_get h' object k)" for k
  proof -
    from ob sub sub' have "object \<in> region n0 X h' \<or> object \<in> X" by auto
    then show ?thesis
    proof
      assume "object \<in> region n0 X h'"
      moreover from IH(3) have "closed_in (region n0 X h') h'" by (simp add: sinv_def)
      ultimately show ?thesis by (auto intro: closed_lookup)
    next
      assume "object \<in> X"
      with gets have "st_get hm object k = st_get h object k \<or> st_get hm object k = v" by simp
      moreover from vm sub' have "val_in (region n0 X h') v" by (rule val_in_mono)
      ultimately show ?thesis using IH(4)[rule_format, of k] by auto
    qed
  qed
  from 1 2 IH(3) 4 show ?case by blast
qed

lemma baseMerge_st_inv:
  "baseMerge_st n h stack object source = Some h' \<Longrightarrow> sinv n0 X h \<Longrightarrow>
     stack_ok (region n0 X h) stack \<Longrightarrow> object \<in> region n0 X h \<Longrightarrow>
     source \<in> region n0 X h \<Longrightarrow> frame n0 X h h' \<and> sinv n0 X h'"
proof (induction n arbitrary: h stack object source h')
  case 0
  then show ?case by simp
next
  case (Suc n)
  show ?case
  proof (cases "object = source")
    case True
    with Suc.prems show ?thesis by (simp add: frame_refl)
  next
    case False
    with Suc.prems(1) have m: "mergeKeys n h stack object source (map fst (oprops (h ! source))) = Some h'"
      by (simp split: if_splits)
    from Suc.prems(2) have cl: "closed_in (region n0 X h) h" by (simp add: sinv_def)
    have t: "\<forall>key\<in>set (map fst (oprops (h ! source))). val_in (region n0 X h) (st_get h object key)"
      using closed_lookup[OF cl Suc.prems(4)] by simp
    from Suc.prems(4) have nx: "object \<notin> X" "n0 \<le> object" by (auto simp: region_def)
    from mergeKeys_inv[of n n0 X, OF Suc.IH m Suc.prems(2,3) _ Suc.prems(5) t] Suc.prems(4)
    have "length h \<le> length h'"
      "\<forall>a<length h. (a < n0 \<or> a \<in> X) \<and> a \<noteq> object \<longrightarrow> h' ! a = h ! a" "sinv n0 X h'"
      by simp_all
    with nx show ?thesis by (auto simp: frame_def)
  qed
qed

lemma cloneDeep_inv:
  assumes "cloneDeep n h v = Some (h', r)" and "sinv n0 X h" and "val_ok (length h) v"
  shows "ext h h' \<and> sinv n0 X h' \<and> val_in (region n0 X h') r"
proof (cases v)
  case (VFunction f)
  with assms(1) have "h' = h @ [Obj Plain []]" "r = VRef (length h)"
    by (simp_all add: cloneDeep_def)
  with assms(2) show ?thesis
    using inv_alloc[OF assms(2), of "[]" Plain] new_in_region[OF assms(2), of "Obj Plain []"]
    by (simp add: ext_alloc)
next
  case (VRef a)
  with assms(1) obtain stack' where "baseClone n h [] v = Some (h', stack', r)"
    by (auto simp: cloneDeep_def split: option.splits)
  from baseClone_inv[OF this assms(2) _ assms(3)] show ?thesis by (simp add: stack_ok_def)
qed (use assms in \<open>auto simp: cloneDeep_def ext_refl\<close>)

lemma cloneDeep_ref:
  assumes "cloneDeep n h (VRef a) = Some (h', r)" and "sinv n0 X h" and "a < length h"
  shows "\<exists>c. r = VRef c \<and> length h \<le> c \<and> c \<in> region n0 X h' \<and>
             fst ` set (oprops (h' ! c)) \<subseteq> fst ` set (oprops (h ! a))"
proof -
  from assms(1) obtain stack' where b: "baseClone n h [] (VRef a) = Some (h', stack', r)"
    by (auto simp: cloneDeep_def split: option.splits)
  then obtain m where n: "n = Suc m" by (cases n) simp_all
  let ?h1 = "h @ [Obj (okind (h ! a)) []]"
  from b n assms(3) have
    c: "cloneProps m ?h1 [(a, length h)] (length h) (oprops (h ! a)) = Some (h', stack')"
    and r: "r = VRef (length h)"
    by (auto split: option.splits)
  have i1: "sinv n0 X ?h1" using assms(2) by (rule inv_alloc) simp
  have new: "length h \<in> region n0 X ?h1" using assms(2) by (rule new_in_region)
  have s1: "stack_ok (region n0 X ?h1) [(a, length h)]" using new by (simp add: stack_ok_def)
  from assms(2) have "wf_store h" by (simp add: sinv_def)
  then have vs: "\<forall>(k, v)\<in>set (oprops (h ! a)). val_ok (length ?h1) v"
    using assms(3) by (auto dest!: wf_store_nth intro: val_ok_mono)
  from cloneProps_inv[of m n0 X, OF baseClone_inv c i1 s1 new vs]
  have l: "length ?h1 \<le> length h'"
    and k: "fst ` set (oprops (h' ! length h)) \<subseteq>
      fst ` set (oprops (?h1 ! length h)) \<union> fst ` set (oprops (h ! a))"
    by simp_all
  from new have "length h \<in> region n0 X h'" using region_mono[OF l, of n0 X] by auto
  with r k show ?thesis by simp
qed

lemma sinv_start: "wf_store h \<Longrightarrow> sinv (length h) {} h"
  by (auto simp: sinv_def closed_in_def region_def)

lemma sinv_this:
  assumes "sinv n0 {} h"
  shows "sinv n0 {length h} (h @ [Obj kd []])"
proof -
  let ?h' = "h @ [Obj kd []]"
  from assms have wf: "wf_store h" and n0: "n0 \<le> length h"
    and cl: "closed_in (region n0 {} h) h"
    by (simp_all add: sinv_def)
  have reg: "region n0 {length h} ?h' = region n0 {} h" by (auto simp: region_def)
  have "wf_store ?h'"
  proof (rule wf_storeI)
    fix a k v
    assume "a < length ?h'" and "(k, v) \<in> set (oprops (?h' ! a))"
    then have "a < length h" "(k, v) \<in> set (oprops (h ! a))"
      by (auto simp: nth_append split: if_splits)
    from wf_store_nth[OF wf this] show "val_ok (length ?h') v" by (rule val_ok_mono) simp
  qed
  moreover have "closed_in (region n0 {length h} ?h') ?h'"
    unfolding reg
  proof (rule closed_inI)
    fix a k v
    assume a: "a \<in> region n0 {} h" and "(k, v) \<in> set (oprops (?h' ! a))"
    moreover from a have "a < length h" by (simp add: region_def)
    ultimately show "val_in (region n0 {} h) v"
      using closed_inD[OF cl, of a k v] by (simp add: nth_append)
  qed
  ultimately show ?thesis using n0 by (simp add: sinv_def)
qed

lemma building_alloc:
  assumes "building h0 t h" and "\<forall>(k, v)\<in>set ps. val_in (region (length h0) {t} h) v"
  shows "building h0 t (h @ [Obj kd ps]) \<and> length h \<in> region (length h0) {t} (h @ [Obj kd ps])"
proof -
  let ?h' = "h @ [Obj kd ps]"
  from assms(1) have i: "sinv (length h0) {t} h" by (simp add: building_def)
  then have t: "t < length h" and n0: "length h0 \<le> length h" by (simp_all add: sinv_def)
  have sub: "region (length h0) {t} h \<subseteq> region (length h0) {t} ?h'"
    by (rule region_mono) simp
  have "st_get ?h' t k = st_get h t k" for k using t by (simp add: st_get_def nth_append)
  with assms(1) sub have "\<forall>k. k = ''app'' \<or> k = ''server'' \<or>
      val_in (region (length h0) {t} ?h') (st_get ?h' t k)"
    by (auto simp: building_def intro: val_in_mono)
  moreover have "\<forall>a<length h0. ?h' ! a = h0 ! a"
    using assms(1) n0 by (simp add: building_def nth_append)
  ultimately show ?thesis
    using inv_alloc[OF i assms(2), of kd] new_in_region[OF i, of "Obj kd ps"] assms(1)
    by (simp add: building_def)
qed

lemma building_set:
  assumes "building h0 t h"
    and "(key = ''app'' \<or> key = ''server'') \<and> val_ok (length h) v \<or>
         val_in (region (length h0) {t} h) v"
  shows "building h0 t (st_set h t key v)"
proof -
  let ?h' = "st_set h t key v"
  from assms(1) have i: "sinv (length h0) {t} h" and n0: "length h0 \<le> t"
    by (simp_all add: building_def)
  then have t: "t < length h" by (simp add: sinv_def)
  from assms(2) have ok: "val_ok (length h) v" by (auto dest: val_in_region_ok)
  have reg: "region (length h0) {t} ?h' = region (length h0) {t} h" by (simp add: region_def)
  have "sinv (length h0) {t} ?h'" using i _ ok by (rule inv_st_set_special) simp
  moreover have "\<forall>a<length h0. ?h' ! a = h0 ! a"
    using assms(1) n0 by (simp add: building_def nth_st_set)
  moreover have "k = ''app'' \<or> k = ''server'' \<or> val_in (region (length h0) {t} h) (st_get ?h' t k)" for k
    using assms t by (auto simp: building_def st_get_st_set)
  ultimately show ?thesis using n0 by (simp add: building_def reg)
qed

lemma building_frame:
  assumes "building h0 t h" and "frame (length h0) {t} h h'" and "sinv (length h0) {t} h'"
  shows "building h0 t h'"
proof -
  from assms(1) have i: "sinv (length h0) {t} h" and n0: "length h0 \<le> t"
    by (simp_all add: building_def)
  then have t: "t < length h" and l0: "length h0 \<le> length h" by (simp_all add: sinv_def)
  from assms(2) have l: "length h \<le> length h'" by (simp add: frame_def)
  from assms(2) t have "h' ! t = h ! t" by (simp add: frame_def)
  then have "st_get h' t k = st_get h t k" for k by (simp add: st_get_def)
  with assms(1) region_mono[OF l, of "length h0" "{t}"]
  have "\<forall>k. k = ''app'' \<or> k = ''server'' \<or> val_in (region (length h0) {t} h') (st_get h' t k)"
    by (auto simp: building_def intro: val_in_mono)
  moreover have "\<forall>a<length h0. h' ! a = h0 ! a"
    using assms(1,2) l0 by (auto simp: building_def frame_def)
  ultimately show ?thesis using assms(3) n0 by (simp add: building_def)
qed

lemma merge_st_inv:
  assumes "merge_st n h object source = Some h'" and "sinv n0 X h"
    and "object \<in> region n0 X h" and "val_in (region n0 X h) source"
  shows "frame n0 X h h' \<and> sinv n0 X h'"
proof (cases source)
  case (VRef s)
  with assms(1) have "baseMerge_st n h [] object s = Some h'" by (simp add: merge_st_def)
  from baseMerge_st_inv[OF this assms(2) _ assms(3)] assms(4) VRef show ?thesis
    by (simp add: stack_ok_def)
qed (use assms in \<open>auto simp: merge_st_def frame_refl\<close>)

lemma Extensible_init_building:
  assumes "Extensible_init n h t cfg = Some h'" and "building h0 t h"
    and "val_in (region (length h0) {t} h) cfg"
  shows "building h0 t h'"
proof -
  let ?R = "\<lambda>h. region (length h0) {t} h"
  let ?l = "length h"
  let ?ha = "h @ [Obj Plain []]"
  let ?hb = "?ha @ [Obj Plain []]"
  let ?hc = "?hb @ [Obj Plain [(''intentMap'', VRef ?l), (''logging'', VRef (Suc ?l))]]"
  have d: "getDefaultConfig_st h = (?hc, Suc (Suc ?l))"
    by (simp add: getDefaultConfig_st_def alloc_def)
  from building_alloc[OF assms(2), of "[]" Plain]
  have a: "building h0 t ?ha" "?l \<in> ?R ?ha" by simp_all
  from building_alloc[OF a(1), of "[]" Plain]
  have b: "building h0 t ?hb" "Suc ?l \<in> ?R ?hb" by simp_all
  have "?l \<in> ?R ?hb" using a(2) region_mono[of ?ha ?hb "length h0" "{t}"] by auto
  with b(2) have "\<forall>(k, v)\<in>set [(''intentMap'', VRef ?l), (''logging'', VRef (Suc ?l))]. val_in (?R ?hb) v"
    by simp
  from building_alloc[OF b(1) this, of Plain]
  have c: "building h0 t ?hc" "Suc (Suc ?l) \<in> ?R ?hc" by simp_all
  from assms(1) d obtain h2 where
    m: "merge_st n ?hc (Suc (Suc ?l)) cfg = Some h2"
    and h': "h' = st_set
        (st_set (st_set h2 t ''config'' (VRef (Suc (Suc ?l))) @ [Obj Plain []]) t ''plugins''
           (VRef (length h2)) @ [Obj (Instance ''MiddlewareCollection'') []])
        t ''middlewareCollection'' (VRef (Suc (length h2)))"
    by (auto simp: Extensible_init_def initializeMiddlewareCollection_st_def alloc_def
             split: option.splits)
  have "val_in (?R ?hc) cfg"
    using assms(3) region_mono[of h ?hc "length h0" "{t}"] by (auto intro: val_in_mono)
  from merge_st_inv[OF m _ c(2) this] c(1)
  have f: "frame (length h0) {t} ?hc h2" and i2: "sinv (length h0) {t} h2"
    by (simp_all add: building_def)
  have b2: "building h0 t h2" using c(1) f i2 by (rule building_frame)
  from f have "length ?hc \<le> length h2" by (simp add: frame_def)
  from c(2) region_mono[OF this, of "length h0" "{t}"]
  have "val_in (?R h2) (VRef (Suc (Suc ?l)))" by auto
  then have b3: "building h0 t (st_set h2 t ''config'' (VRef (Suc (Suc ?l))))"
    by (intro building_set[OF b2] disjI2)
  let ?h3 = "st_set h2 t ''config'' (VRef (Suc (Suc ?l)))"
  from building_alloc[OF b3, of "[]" Plain]
  have b4: "building h0 t (?h3 @ [Obj Plain []])" "length ?h3 \<in> ?R (?h3 @ [Obj Plain []])"
    by simp_all
  let ?h4 = "?h3 @ [Obj Plain []]"
  have b5: "building h0 t (st_set ?h4 t ''plugins'' (VRef (length h2)))"
    by (rule building_set[OF b4(1) disjI2]) (use b4(2) in simp)
  let ?h5 = "st_set ?h4 t ''plugins'' (VRef (length h2))"
  from building_alloc[OF b5, of "[]" "Instance ''MiddlewareCollection''"]
  have b6: "building h0 t (?h5 @ [Obj (Instance ''MiddlewareCollection'') []])"
    "length ?h5 \<in> ?R (?h5 @ [Obj (Instance ''MiddlewareCollection'') []])"
    by simp_all
  have "building h0 t (st_set (?h5 @ [Obj (Instance ''MiddlewareCollection'') []]) t
      ''middlewareCollection'' (VRef (Suc (length h2))))"
    by (rule building_set[OF b6(1) disjI2]) (use b6(2) in simp)
  then show ?thesis by (simp add: h')
qed

lemma HandleRequest_new_building:
  assumes "HandleRequest_new n h app server = Some (h', this)"
    and "wf_store h" and "val_ok (length h) server"
    and "''app'' \<notin> fst ` set (oprops (h ! app))"
    and "''server'' \<notin> fst ` set (oprops (h ! app))"
  shows "building h this h'"
proof -
  let ?n0 = "length h"
  from assms(1) have app: "app < length h"
    by (simp add: HandleRequest_new_def split: if_splits)
  from assms(1) app obtain h1 cfg h3 h8 clone where
    c1: "cloneDeep n h (st_get h app ''config'') = Some (h1, cfg)"
    and t: "this = length h1"
    and e: "Extensible_init n (h1 @ [Obj (Instance ''HandleRequest'') []]) this cfg = Some h3"
    and c2: "cloneDeep n
        (st_set (st_set (st_set h3 this ''app'' (VRef app)) this ''server'' server @
                  [Obj (Instance ''ComponentTree'') []])
           this ''componentTree'' (VRef (length h3)))
        (VRef app) = Some (h8, clone)"
    and m: "merge_st n h8 this clone = Some h'"
    by (auto simp: HandleRequest_new_def alloc_def Let_def split: option.splits prod.splits)
  let ?R = "\<lambda>h'. region ?n0 {this} h'"
  from cloneDeep_inv[OF c1 sinv_start[OF assms(2)] wf_lookup[OF assms(2) app]]
  have e1: "ext h h1" and i1: "sinv ?n0 {} h1" and cfg: "val_in (region ?n0 {} h1) cfg"
    by simp_all
  let ?h2 = "h1 @ [Obj (Instance ''HandleRequest'') []]"
  from e1 have l1: "?n0 \<le> length h1" by (simp add: ext_def)
  have reg2: "?R ?h2 = region ?n0 {} h1" unfolding t by (auto simp: region_def)
  have b2: "building h this ?h2"
  proof -
    have "sinv ?n0 {this} ?h2" unfolding t using i1 by (rule sinv_this)
    moreover have "\<forall>a<?n0. ?h2 ! a = h ! a" using e1 by (simp add: ext_def nth_append)
    moreover have "st_get ?h2 this k = VUndefined" for k
      by (simp add: t st_get_def lookup_def)
    ultimately show ?thesis using l1 by (simp add: building_def t)
  qed
  from cfg reg2 have cfg2: "val_in (?R ?h2) cfg" by simp
  from Extensible_init_building[OF e b2 cfg2] have b3: "building h this h3" .
  then have l3: "?n0 \<le> length h3" by (simp add: building_def sinv_def)
  let ?h4 = "st_set h3 this ''app'' (VRef app)"
  have b4: "building h this ?h4"
    by (rule building_set[OF b3 disjI1]) (use app l3 in simp)
  let ?h5 = "st_set ?h4 this ''server'' server"
  have b5: "building h this ?h5"
    by (rule building_set[OF b4 disjI1])
       (use val_ok_mono[OF assms(3), of "length ?h4"] l3 in simp)
  let ?h6 = "?h5 @ [Obj (Instance ''ComponentTree'') []]"
  from building_alloc[OF b5, of "[]" "Instance ''ComponentTree''"]
  have b6: "building h this ?h6" "length ?h5 \<in> ?R ?h6" by simp_all
  let ?h7 = "st_set ?h6 this ''componentTree'' (VRef (length h3))"
  have b7: "building h this ?h7"
    by (rule building_set[OF b6(1) disjI2]) (use b6(2) in simp)
  then have i7: "sinv ?n0 {this} ?h7" and old7: "?h7 ! app = h ! app"
    using app by (simp_all add: building_def)
  have app7: "app < length ?h7" using app l3 by simp
  from cloneDeep_inv[OF c2 i7] app7
  have e8: "ext ?h7 h8" and i8: "sinv ?n0 {this} h8" by simp_all
  have b8: "building h this h8" using b7 ext_frame[OF e8] i8 by (rule building_frame)
  from cloneDeep_ref[OF c2 i7 app7] old7 obtain c where
    clone: "clone = VRef c" and c: "c \<in> ?R h8"
    and keys: "fst ` set (oprops (h8 ! c)) \<subseteq> fst ` set (oprops (h ! app))"
    by auto
  from b8 have n0t: "?n0 \<le> this" by (simp add: building_def)
  from m clone have bm: "baseMerge_st n h8 [] this c = Some h'" by (simp add: merge_st_def)
  then obtain k where n: "n = Suc k" by (cases n) simp_all
  from c have ne: "this \<noteq> c" by (auto simp: region_def)
  with bm n have mk: "mergeKeys k h8 [] this c (map fst (oprops (h8 ! c))) = Some h'"
    by (simp split: if_splits)
  have b8k: "key = ''app'' \<or> key = ''server'' \<or> val_in (?R h8) (st_get h8 this key)" for key
    using b8 unfolding building_def by blast
  have targets: "\<forall>key\<in>set (map fst (oprops (h8 ! c))). val_in (?R h8) (st_get h8 this key)"
  proof
    fix key assume "key \<in> set (map fst (oprops (h8 ! c)))"
    then have "key \<in> fst ` set (oprops (h8 ! c))" by simp
    with keys have "key \<in> fst ` set (oprops (h ! app))" by (rule subsetD)
    with assms(4,5) have "key \<noteq> ''app''" "key \<noteq> ''server''" by blast+
    with b8k[of key] show "val_in (?R h8) (st_get h8 this key)" by blast
  qed
  have so: "stack_ok (?R h8) []" by (simp add: stack_ok_def)
  have ob: "this \<in> ?R h8 \<or> this \<in> {this}" by simp
  have r0: "length h8 \<le> length h' \<and>
      (\<forall>a<length h8. (a < ?n0 \<or> a \<in> {this}) \<and> a \<noteq> this \<longrightarrow> h' ! a = h8 ! a) \<and>
      sinv ?n0 {this} h' \<and>
      (\<forall>k. st_get h' this k = st_get h8 this k \<or> val_in (?R h') (st_get h' this k))"
    by (rule mergeKeys_inv[OF _ mk i8 so ob c targets]) (rule baseMerge_st_inv; assumption)
  note r1 = r0[THEN conjunct1]
  note r2 = r0[THEN conjunct2, THEN conjunct1]
  note r3 = r0[THEN conjunct2, THEN conjunct2, THEN conjunct1]
  note r4 = r0[THEN conjunct2, THEN conjunct2, THEN conjunct2]
  from i8 have l8: "?n0 \<le> length h8" unfolding sinv_def by blast
  have old8: "\<forall>a<?n0. h8 ! a = h ! a" using b8 unfolding building_def by blast
  have old: "\<forall>a<?n0. h' ! a = h ! a"
  proof (intro allI impI)
    fix a assume a: "a < ?n0"
    with l8 have "a < length h8" by simp
    moreover from a n0t have "a \<noteq> this" by simp
    ultimately have "h' ! a = h8 ! a" using r2 a by blast
    with old8 a show "h' ! a = h ! a" by simp
  qed
  have sub: "?R h8 \<subseteq> ?R h'" using r1 by (rule region_mono)
  have targets': "\<forall>key. key = ''app'' \<or> key = ''server'' \<or> val_in (?R h') (st_get h' this key)"
  proof
    fix key
    from r4 have "st_get h' this key = st_get h8 this key \<or> val_in (?R h') (st_get h' this key)"
      by (rule spec)
    then show "key = ''app'' \<or> key = ''server'' \<or> val_in (?R h') (st_get h' this key)"
    proof
      assume eq: "st_get h' this key = st_get h8 this key"
      from b8k[of key] show ?thesis
      proof (elim disjE)
        assume "val_in (?R h8) (st_get h8 this key)"
        then have "val_in (?R h') (st_get h8 this key)" using sub by (rule val_in_mono)
        with eq show ?thesis by simp
      qed blast+
    qed blast
  qed
  show ?thesis unfolding building_def using r3 old n0t targets' by blast
qed

lemma view_agree:
  assumes "closed_in R h" and "\<forall>b\<in>R. b < length h \<and> b < length h'' \<and> h'' ! b = h ! b"
  shows "val_in R v \<Longrightarrow> view d h'' v = view d h v"
proof (induction d arbitrary: v)
  case 0
  then show ?case by (cases v) simp_all
next
  case (Suc d)
  show ?case
  proof (cases v)
    case (VRef a)
    with Suc.prems have a: "a \<in> R" by simp
    with assms(2) have l: "a < length h" "a < length h''" and e: "h'' ! a = h ! a" by auto
    have "map (\<lambda>(k, v). (k, view d h'' v)) (oprops (h ! a)) =
          map (\<lambda>(k, v). (k, view d h v)) (oprops (h ! a))"
    proof (rule map_cong[OF refl])
      fix p assume p: "p \<in> set (oprops (h ! a))"
      obtain k w where kw: "p = (k, w)" by (cases p)
      with p closed_inD[OF assms(1) a, of k w] have "val_in R w" by simp
      from Suc.IH[OF this] kw
      show "(case p of (k, v) \<Rightarrow> (k, view d h'' v)) = (case p of (k, v) \<Rightarrow> (k, view d h v))"
        by simp
    qed
    with VRef l e show ?thesis by simp
  qed simp_all
qed

lemma cells_agree:
  assumes "closed_in R h" and "\<forall>b\<in>R. b < length h'' \<and> h'' ! b = h ! b"
  shows "val_in R v \<Longrightarrow> cells d h'' v \<subseteq> R"
proof (induction d arbitrary: v)
  case 0
  then show ?case by simp
next
  case (Suc d)
  show ?case
  proof (cases v)
    case (VRef a)
    with Suc.prems have a: "a \<in> R" by simp
    with assms(2) have e: "h'' ! a = h ! a" by blast
    have "cells d h'' w \<subseteq> R" if "(k, w) \<in> set (oprops (h ! a))" for k w
      using closed_inD[OF assms(1) a that] by (rule Suc.IH)
    with VRef a e show ?thesis by (auto split: if_splits)
  qed simp_all
qed

lemma wf_store_closed: "wf_store h \<Longrightarrow> closed_in {a. a < length h} h"
proof (rule closed_inI)
  fix a k v
  assume "wf_store h" and "a \<in> {a. a < length h}" and "(k, v) \<in> set (oprops (h ! a))"
  then have "val_ok (length h) v" by (auto dest!: wf_store_nth)
  then show "val_in {a. a < length h} v" by (cases v) simp_all
qed

lemma val_ok_val_in: "val_ok n v \<Longrightarrow> val_in {a. a < n} v"
  by (cases v) simp_all

text \<open>What one construction establishes, in terms of the cells it allocates.\<close>

lemma HandleRequest_new_fresh:
  assumes c: "HandleRequest_new n h app server = Some (h', this)"
    and wf: "wf_store h" and sv: "val_ok (length h) server"
    and ka: "''app'' \<notin> fst ` set (oprops (h ! app))"
    and ks: "''server'' \<notin> fst ` set (oprops (h ! app))"
    and k: "k = ''config'' \<or> k = ''plugins''"
  shows "wf_store h'" and "length h \<le> this" and "this < length h'"
    and "\<forall>a<length h. h' ! a = h ! a"
    and "same_cells (length h) (length h') h' h'' \<Longrightarrow>
         view d h'' (st_get h'' this k) = view d h' (st_get h' this k) \<and>
         cells d h'' (st_get h'' this k) \<subseteq> {length h..<length h'}"
proof -
  let ?R = "region (length h) {this} h'"
  from HandleRequest_new_building[OF c wf sv ka ks] have b: "building h this h'" .
  then have i: "sinv (length h) {this} h'" unfolding building_def by blast
  from i show "wf_store h'" unfolding sinv_def by blast
  from b show lo: "length h \<le> this" unfolding building_def by blast
  from i show hi: "this < length h'" unfolding sinv_def by blast
  from b show "\<forall>a<length h. h' ! a = h ! a" unfolding building_def by blast
  from i have cl: "closed_in ?R h'" unfolding sinv_def by blast
  from k have "k \<noteq> ''app''" "k \<noteq> ''server''" by auto
  moreover from b have "k = ''app'' \<or> k = ''server'' \<or> val_in ?R (st_get h' this k)"
    unfolding building_def by blast
  ultimately have v: "val_in ?R (st_get h' this k)" by blast
  have sub: "?R \<subseteq> {length h..<length h'}" by (auto simp: region_def)
  assume s: "same_cells (length h) (length h') h' h''"
  then have ag: "\<forall>b\<in>?R. b < length h' \<and> b < length h'' \<and> h'' ! b = h' ! b"
    using sub by (auto simp: same_cells_def)
  from s lo hi have "h'' ! this = h' ! this" by (simp add: same_cells_def)
  then have e: "st_get h'' this k = st_get h' this k" by (simp add: st_get_def)
  have "view d h'' (st_get h' this k) = view d h' (st_get h' this k)"
    using cl ag v by (rule view_agree)
  moreover have "cells d h'' (st_get h' this k) \<subseteq> ?R"
    using cl _ v by (rule cells_agree) (use ag in blast)
  ultimately show "view d h'' (st_get h'' this k) = view d h' (st_get h' this k) \<and>
      cells d h'' (st_get h'' this k) \<subseteq> {length h..<length h'}"
    using e sub by auto
qed

lemma old_view:
  assumes "wf_store h" and "val_ok (length h) v" and "same_cells 0 (length h) h h''"
  shows "view d h'' v = view d h v \<and> cells d h'' v \<subseteq> {0..<length h}"
proof -
  let ?R = "{a. a < length h}"
  have cl: "closed_in ?R h" using assms(1) by (rule wf_store_closed)
  have v: "val_in ?R v" using assms(2) by (rule val_ok_val_in)
  from assms(3) have ag: "\<forall>b\<in>?R. b < length h \<and> b < length h'' \<and> h'' ! b = h ! b"
    by (auto simp: same_cells_def)
  have "view d h'' v = view d h v" using cl ag v by (rule view_agree)
  moreover have "cells d h'' v \<subseteq> ?R" using cl _ v by (rule cells_agree) (use ag in blast)
  ultimately show ?thesis by auto
qed

text \<open>
  Claim C1. Let two requests be constructed one after the other from an App at address
  \<open>app\<close> of a well-formed store \<open>h\<close> (the App has no property \<^verbatim>\<open>app\<close> or \<^verbatim>\<open>server\<close> of
  its own): the first gives the store \<open>h1\<close> and the object \<open>r1\<close>, the second the store
  \<open>h2\<close> and the object \<open>r2\<close>. Then each request's config and plugin registry consist of
  cells that its construction allocated, the App's consist of cells that existed before, and
  no construction touches an older cell. So, for \<open>k\<close> the config or the registry and any
  later store \<open>h''\<close>: what the App sees at \<open>k\<close> is what it saw in \<open>h\<close> as long as the
  cells older than the requests are as they were; what the first request sees is what it
  saw when it was constructed as long as the cells of its construction are as they were;
  and likewise for the second. A mutation reached through the config or registry of one of
  the three changes cells of that one only, and therefore leaves what the other two see
  unchanged.
\<close>

theorem HandleRequest_isolation:
  assumes wf: "wf_store h" and sv: "val_ok (length h) server"
    and ka: "''app'' \<notin> fst ` set (oprops (h ! app))"
    and ks: "''server'' \<notin> fst ` set (oprops (h ! app))"
    and c1: "HandleRequest_new n h app server = Some (h1, r1)"
    and c2: "HandleRequest_new m h1 app server = Some (h2, r2)"
    and k: "k = ''config'' \<or> k = ''plugins''"
  shows "length h \<le> r1 \<and> r1 < length h1 \<and> length h1 \<le> r2 \<and> r2 < length h2 \<and>
         same_cells 0 (length h) h h2 \<and>
         (same_cells 0 (length h) h2 h'' \<longrightarrow>
            view d h'' (st_get h'' app k) = view d h (st_get h app k) \<and>
            cells d h'' (st_get h'' app k) \<subseteq> {0..<length h}) \<and>
         (same_cells (length h) (length h1) h2 h'' \<longrightarrow>
            view d h'' (st_get h'' r1 k) = view d h1 (st_get h1 r1 k) \<and>
            cells d h'' (st_get h'' r1 k) \<subseteq> {length h..<length h1}) \<and>
         (same_cells (length h1) (length h2) h2 h'' \<longrightarrow>
            view d h'' (st_get h'' r2 k) = view d h2 (st_get h2 r2 k) \<and>
            cells d h'' (st_get h'' r2 k) \<subseteq> {length h1..<length h2})"
proof -
  from c1 have app: "app < length h" by (simp add: HandleRequest_new_def split: if_splits)
  note f1 = HandleRequest_new_fresh[OF c1 wf sv ka ks k]
  have l1: "length h \<le> length h1" using f1(2,3) by simp
  from f1(4) app have a1: "h1 ! app = h ! app" by simp
  have sv1: "val_ok (length h1) server" using sv l1 by (rule val_ok_mono)
  note f2 = HandleRequest_new_fresh[OF c2 f1(1) sv1 ka[folded a1] ks[folded a1] k]
  have l2: "length h1 \<le> length h2" using f2(2,3) by simp
  have old: "\<forall>a<length h. h2 ! a = h ! a" using f1(4) f2(4) l1 by simp
  then have s02: "same_cells 0 (length h) h h2" using l1 l2 by (simp add: same_cells_def)
  have A: "view d h'' (st_get h'' app k) = view d h (st_get h app k) \<and>
           cells d h'' (st_get h'' app k) \<subseteq> {0..<length h}"
    if s: "same_cells 0 (length h) h2 h''"
  proof -
    from s old have s': "same_cells 0 (length h) h h''" by (simp add: same_cells_def)
    with app have "h'' ! app = h ! app" by (simp add: same_cells_def)
    then have e: "st_get h'' app k = st_get h app k" by (simp add: st_get_def)
    have "val_ok (length h) (st_get h app k)" using wf app by (rule wf_lookup)
    from old_view[OF wf this s'] e show ?thesis by simp
  qed
  have B: "view d h'' (st_get h'' r1 k) = view d h1 (st_get h1 r1 k) \<and>
           cells d h'' (st_get h'' r1 k) \<subseteq> {length h..<length h1}"
    if s: "same_cells (length h) (length h1) h2 h''"
  proof -
    from s f2(4) have "same_cells (length h) (length h1) h1 h''" by (simp add: same_cells_def)
    then show ?thesis by (rule f1(5))
  qed
  have C: "view d h'' (st_get h'' r2 k) = view d h2 (st_get h2 r2 k) \<and>
           cells d h'' (st_get h'' r2 k) \<subseteq> {length h1..<length h2}"
    if s: "same_cells (length h1) (length h2) h2 h''"
    using s by (rule f2(5))
  from f1(2,3) f2(2,3) s02 A B C show ?thesis by blast
qed

theorem HandleRequest_isolation_witness:
  "wf_store store0 \<and> val_ok (length store0) (VRef 8) \<and>
   ''app'' \<notin> fst ` set (oprops (store0 ! 7)) \<and>
   ''server'' \<notin> fst ` set (oprops (store0 ! 7)) \<and>
   (\<exists>h1 r1 h2 r2.
      HandleRequest_new 5 store0 7 (VRef 8) = Some (h1, r1) \<and>
      HandleRequest_new 5 h1 7 (VRef 8) = Some (h2, r2) \<and>
      same_cells (length store0) (length h1) h2 (st_set h2 2 ''logging'' (VBool False)) \<and>
      same_cells (length h1) (length h2) h2 (st_set h2 2 ''logging'' (VBool False)) \<and>
      view 4 (st_set h2 2 ''logging'' (VBool False))
        (st_get (st_set h2 2 ''logging'' (VBool False)) r1 ''config'') =
      view 4 h1 (st_get h1 r1 ''config'') \<and>
      view 4 (st_set h2 2 ''logging'' (VBool False))
        (st_get (st_set h2 2 ''logging'' (VBool False)) r2 ''config'') =
      view 4 h2 (st_get h2 r2 ''config''))"
proof -
  have w: "wf_store store0" by code_simp
  have l0: "length store0 = 11" by (simp add: store0_def)
  have sv: "val_ok (length store0) (VRef 8)" by (simp add: l0)
  have ka: "''app'' \<notin> fst ` set (oprops (store0 ! 7))" by (simp add: store0_def)
  have ks: "''server'' \<notin> fst ` set (oprops (store0 ! 7))" by (simp add: store0_def)
  have "HandleRequest_new 5 store0 7 (VRef 8) \<noteq> None" by code_simp
  then obtain h1 r1 where c1: "HandleRequest_new 5 store0 7 (VRef 8) = Some (h1, r1)" by auto
  have "(case HandleRequest_new 5 store0 7 (VRef 8) of None \<Rightarrow> False
         | Some (h1, r1) \<Rightarrow> HandleRequest_new 5 h1 7 (VRef 8) \<noteq> None)"
    by code_simp
  with c1 obtain h2 r2 where c2: "HandleRequest_new 5 h1 7 (VRef 8) = Some (h2, r2)" by auto
  let ?h = "st_set h2 2 ''logging'' (VBool False)"
  note t = HandleRequest_isolation[OF w sv ka ks c1 c2, where k = "''config''" and h'' = ?h
      and d = 4]
  from t have b: "length store0 \<le> r1" "r1 < length h1" "length h1 \<le> r2" "r2 < length h2"
    by simp_all
  have s1: "same_cells (length store0) (length h1) h2 ?h"
    using b by (simp add: same_cells_def st_set_def l0)
  have s2: "same_cells (length h1) (length h2) h2 ?h"
    using b by (simp add: same_cells_def st_set_def l0)
  from t s1 s2 have
    "view 4 ?h (st_get ?h r1 ''config'') = view 4 h1 (st_get h1 r1 ''config'')"
    "view 4 ?h (st_get ?h r2 ''config'') = view 4 h2 (st_get h2 r2 ''config'')"
    by simp_all
  with w sv ka ks c1 c2 s1 s2 show ?thesis by blast
qed

end
